theory Spec2Isabelle
  imports Main "HOL-Library.Word" "HOL-Library.Signed_Division"
begin

section \<open>The exchange table (xchg.go)\<close>

subsection \<open>Data\<close>

text \<open>
  A \<open>time.Time\<close> is an instant, counted here in nanoseconds from Go's zero time, so that
  \<open>IsZero\<close> is equality with 0, \<open>Add\<close> is addition of a duration (nanoseconds as well) and
  \<open>After\<close> is the strict order. Integers are unbounded: no instant or duration a process
  meets comes near the limits of Go's representation.
\<close>

type_synonym time = int
type_synonym duration = int

definition IsZero :: "time \<Rightarrow> bool" where
  "IsZero t = (t = 0)"

definition Add_time :: "time \<Rightarrow> duration \<Rightarrow> time" where
  "Add_time t d = t + d"

definition After :: "time \<Rightarrow> time \<Rightarrow> bool" where
  "After t u = (u < t)"

text \<open>The default of the package variable \<open>QueryTimeout\<close>: \<open>time.Second\<close>.\<close>

definition QueryTimeout_default :: duration where
  "QueryTimeout_default = 1000000000"

text \<open>
  The struct \<open>request\<close>. The context, the message and the result channel are kept as
  opaque handles: no operation of the table looks into them.
\<close>

record request =
  Ctx :: nat
  ID :: "16 word"
  Timestamp :: time
  Name :: string
  Qtype :: "16 word"
  Msg :: nat
  Result :: nat

text \<open>
  The struct \<open>xchgMgr\<close>. The map holds pointers to requests; \<open>add\<close>, the only operation
  that stores one, reads the fields of its argument first, so a stored pointer is never nil
  and the map is modelled with the requests themselves as values. A lookup of an absent key
  is \<open>None\<close>, which is also how Go's nil result of such a lookup reads. Every method holds
  the embedded mutex from its first statement to its return and calls no other method that
  takes it, so each is one atomic step on the table.
\<close>

record xchgMgr =
  xchgs :: "string \<rightharpoonup> request"

datatype error =
  KeyInUse string
  | NoConnection
  | ShortWrite int int
  | Foreign nat

definition newXchgMgr :: xchgMgr where
  "newXchgMgr = \<lparr>xchgs = Map.empty\<rparr>"

subsection \<open>The correlation key\<close>

text \<open>
  Modelled from the spec: \<open>RemoveLastDot\<close>, the name normalizer, is defined in a file of
  the repository that is not among the sources. The spec describes it as a pure function
  stripping a single trailing "." from a domain name.
\<close>

definition RemoveLastDot :: "string \<Rightarrow> string" where
  "RemoveLastDot name =
     (if name \<noteq> [] \<and> last name = CHR ''.'' then butlast name else name)"

text \<open>
  \<open>strings.ToLower\<close> of the Go library. It scans the string for a byte of 128
  (\<open>utf8.RuneSelf\<close>) or more. When there is none it maps the bytes A to Z to a to z and keeps
  every other byte; otherwise it returns \<open>Map(unicode.ToLower, s)\<close>, which decodes the
  string into runes and lower-cases each after the Unicode tables. Those tables are no part
  of the repository: the rune path is the parameter \<open>lowerRunes\<close>, and every statement about
  keys holds for every function in its place.
\<close>

definition isASCII :: "string \<Rightarrow> bool" where
  "isASCII s = list_all (\<lambda>c. (of_char c :: nat) < 128) s"

definition toLowerByte :: "char \<Rightarrow> char" where
  "toLowerByte c =
     (if 65 \<le> (of_char c :: nat) \<and> (of_char c :: nat) \<le> 90
      then char_of ((of_char c :: nat) + 32) else c)"

definition ToLower :: "(string \<Rightarrow> string) \<Rightarrow> string \<Rightarrow> string" where
  "ToLower lowerRunes s = (if isASCII s then map toLowerByte s else lowerRunes s)"

text \<open>The verb \<open>%d\<close> of \<open>fmt.Sprintf\<close> on an unsigned number: its decimal digits.\<close>

definition digit :: "nat \<Rightarrow> char" where
  "digit n = char_of (48 + n)"

function fmt_d :: "nat \<Rightarrow> string" where
  "fmt_d n = (if n < 10 then [digit n] else fmt_d (n div 10) @ [digit (n mod 10)])"
  by pat_completeness auto
termination
  by (relation "measure id") auto

declare fmt_d.simps [simp del]

definition xchgKey :: "(string \<Rightarrow> string) \<Rightarrow> 16 word \<Rightarrow> string \<Rightarrow> string" where
  "xchgKey lowerRunes qid name =
     fmt_d (unat qid) @ '':'' @ ToLower lowerRunes (RemoveLastDot name)"

subsection \<open>Operations\<close>

text \<open>
  How a call ends: it returns a value, it panics (an index out of range, a channel closed
  twice), or it blocks on a mutex that is held and that nothing will release.
\<close>

datatype 'a outcome = Returns 'a | Panics | Blocks

text \<open>
  A method that changes the table returns its result paired with the table it leaves.
  \<open>add\<close> returns Go's \<open>error\<close>: \<open>None\<close> is nil. The methods that derive a key take
  \<open>lowerRunes\<close> as their first argument and pass it to \<open>xchgKey\<close>.
\<close>

definition add :: "(string \<Rightarrow> string) \<Rightarrow> xchgMgr \<Rightarrow> request
    \<Rightarrow> error option \<times> xchgMgr" where
  "add lowerRunes r req =
     (let key = xchgKey lowerRunes (ID req) (Name req) in
      if xchgs r key \<noteq> None then (Some (KeyInUse key), r)
      else (None, r\<lparr>xchgs := (xchgs r)(key \<mapsto> req)\<rparr>))"

text \<open>\<open>now\<close> is what \<open>time.Now()\<close> returns in the call.\<close>

definition updateTimestamp :: "(string \<Rightarrow> string) \<Rightarrow> xchgMgr \<Rightarrow> 16 word \<Rightarrow> string
    \<Rightarrow> time \<Rightarrow> xchgMgr" where
  "updateTimestamp lowerRunes r qid name now =
     (let key = xchgKey lowerRunes qid name in
      case xchgs r key of
        None \<Rightarrow> r
      | Some req \<Rightarrow> r\<lparr>xchgs := (xchgs r)(key \<mapsto> req\<lparr>Timestamp := now\<rparr>)\<rparr>)"

text \<open>
  \<open>delete\<close>: the loop over the keys, with the slice \<open>removed\<close> as accumulator. The entry
  of a key that is absent is appended as nil (\<open>None\<close>).
\<close>

fun delete_loop :: "string list \<Rightarrow> request option list \<Rightarrow> xchgMgr
    \<Rightarrow> request option list \<times> xchgMgr" where
  "delete_loop [] removed r = (removed, r)"
| "delete_loop (k # ks) removed r =
     delete_loop ks (removed @ [xchgs r k]) (r\<lparr>xchgs := (xchgs r)(k := None)\<rparr>)"

definition delete :: "xchgMgr \<Rightarrow> string list \<Rightarrow> request option list \<times> xchgMgr" where
  "delete r keys = delete_loop keys [] r"

text \<open>
  \<open>remove\<close> indexes the slice that \<open>delete\<close> returns at 0, which panics on an empty
  slice.
\<close>

definition remove :: "(string \<Rightarrow> string) \<Rightarrow> xchgMgr \<Rightarrow> 16 word \<Rightarrow> string
    \<Rightarrow> (request option \<times> xchgMgr) outcome" where
  "remove lowerRunes r qid name =
     (let key = xchgKey lowerRunes qid name in
      if xchgs r key \<noteq> None then
        (case delete r [key] of
           (x # _, r') \<Rightarrow> Returns (x, r')
         | ([], r') \<Rightarrow> Panics)
      else Returns (None, r))"

text \<open>
  Go leaves the order in which \<open>range\<close> visits a map open. The loops over the map take
  that order as the argument \<open>order\<close>: a list of the keys of the map, each once. A key of
  \<open>order\<close> that the map does not hold is passed over, as \<open>range\<close> never yields one.
\<close>

definition range_order :: "xchgMgr \<Rightarrow> string list \<Rightarrow> bool" where
  "range_order r order = (distinct order \<and> set order = dom (xchgs r))"

fun expired_keys :: "xchgMgr \<Rightarrow> time \<Rightarrow> duration \<Rightarrow> string list \<Rightarrow> string list
    \<Rightarrow> string list" where
  "expired_keys r now timeout [] keys = keys"
| "expired_keys r now timeout (key # rest) keys =
     (case xchgs r key of
        None \<Rightarrow> expired_keys r now timeout rest keys
      | Some req \<Rightarrow>
          if \<not> IsZero (Timestamp req) \<and> After now (Add_time (Timestamp req) timeout)
          then expired_keys r now timeout rest (keys @ [key])
          else expired_keys r now timeout rest keys)"

text \<open>
  \<open>now\<close> is what \<open>time.Now()\<close> returns in the call and \<open>timeout\<close> the value of the
  package variable \<open>QueryTimeout\<close> at that moment.
\<close>

definition removeExpired :: "xchgMgr \<Rightarrow> time \<Rightarrow> duration \<Rightarrow> string list
    \<Rightarrow> request option list \<times> xchgMgr" where
  "removeExpired r now timeout order = delete r (expired_keys r now timeout order [])"

fun all_keys :: "string list \<Rightarrow> string list \<Rightarrow> string list" where
  "all_keys [] keys = keys"
| "all_keys (key # rest) keys = all_keys rest (keys @ [key])"

definition removeAll_xchg :: "xchgMgr \<Rightarrow> string list \<Rightarrow> request option list \<times> xchgMgr" where
  "removeAll_xchg r order = delete r (all_keys order [])"

subsection \<open>A table of three records, for the examples\<close>

text \<open>
  The names of the examples are ASCII, so the rune path of \<open>ToLower\<close> is not reached; the
  function put in its place there returns its argument.
\<close>

definition no_unicode :: "string \<Rightarrow> string" where
  "no_unicode s = s"

text \<open>
  For an example with a letter outside ASCII, a function that, like the rune path of Go, maps
  the two bytes of a capital E with acute accent (195 137) to those of the small letter
  (195 169) and the letters A to Z to a to z, and keeps every other byte.
\<close>

fun lower_e_acute :: "string \<Rightarrow> string" where
  "lower_e_acute [] = []"
| "lower_e_acute [a] = [toLowerByte a]"
| "lower_e_acute (a # b # s) =
     (if a = char_of (195::nat) \<and> b = char_of (137::nat)
      then a # char_of (169::nat) # lower_e_acute s
      else toLowerByte a # lower_e_acute (b # s))"

definition name_E_acute :: string where
  "name_E_acute = [char_of (195::nat), char_of (137::nat)] @ ''.com''"

definition name_e_acute :: string where
  "name_e_acute = [char_of (195::nat), char_of (169::nat)] @ ''.com''"

definition req_e :: request where
  "req_e = \<lparr>Ctx = 0, ID = 7, Timestamp = 0, Name = name_E_acute, Qtype = 1, Msg = 0,
     Result = 0\<rparr>"

definition req_a :: request where
  "req_a = \<lparr>Ctx = 0, ID = 7, Timestamp = 50, Name = ''a.Example.'', Qtype = 1, Msg = 0,
     Result = 0\<rparr>"

definition req_a2 :: request where
  "req_a2 = \<lparr>Ctx = 1, ID = 7, Timestamp = 0, Name = ''A.EXAMPLE'', Qtype = 28, Msg = 1,
     Result = 1\<rparr>"

definition req_b :: request where
  "req_b = \<lparr>Ctx = 0, ID = 8, Timestamp = 0, Name = ''b.example'', Qtype = 1, Msg = 2,
     Result = 2\<rparr>"

definition req_c :: request where
  "req_c = \<lparr>Ctx = 0, ID = 9, Timestamp = 95, Name = ''C.example'', Qtype = 1, Msg = 3,
     Result = 3\<rparr>"

definition table_abc :: xchgMgr where
  "table_abc = \<lparr>xchgs = [''7:a.example'' \<mapsto> req_a, ''8:b.example'' \<mapsto> req_b,
     ''9:c.example'' \<mapsto> req_c]\<rparr>"

definition order_abc :: "string list" where
  "order_abc = [''9:c.example'', ''7:a.example'', ''8:b.example'']"

definition req_w :: request where
  "req_w = \<lparr>Ctx = 0, ID = 7, Timestamp = 0, Name = ''WWW.Example.COM.'', Qtype = 1, Msg = 0,
     Result = 0\<rparr>"

section \<open>The connection pool\<close>

subsection \<open>Data\<close>

text \<open>
  A \<open>net.PacketConn\<close> is a bound UDP socket, named by a number. A channel of type
  \<open>chan struct{}\<close> is used for one thing only, to be closed, so a channel is a name and the
  pool records which names have been closed.
\<close>

type_synonym PacketConn = nat
type_synonym chan = nat

text \<open>The struct \<open>connection\<close>; its field \<open>done\<close> is \<open>done_c\<close> here.\<close>

record connection =
  conn :: PacketConn
  done_c :: chan

text \<open>
  The struct \<open>connections\<close>. \<open>mutex\<close> is the embedded \<open>sync.Mutex\<close>, true while it is
  held; \<open>done_p\<close> is the field \<open>done\<close>; \<open>conns\<close> is a slice, \<open>None\<close> when nil; \<open>resps\<close>
  is a handle of the queue, which only the read loops use. The last two fields are the part
  of the heap that the pool reaches: \<open>made\<close> counts the channels made so far, so that
  \<open>make\<close> returns the channel of that number, and \<open>closed\<close> holds the channels that have
  been closed. Go's \<open>int\<close> is modelled by the unbounded integers: the only arithmetic is
  \<open>nextWrite + 1\<close> and the loop counters.
\<close>

record connections =
  mutex :: bool
  done_p :: chan
  conns :: "connection list option"
  resps :: nat
  nextWrite :: int
  cpus :: int
  made :: nat
  closed :: "chan set"

text \<open>What a call that opens a socket returns: the error or the socket.\<close>

type_synonym listen_result = "error + PacketConn"

subsection \<open>Sequencing, the mutex and channels\<close>

fun and_then :: "'a outcome \<Rightarrow> ('a \<Rightarrow> 'b outcome) \<Rightarrow> 'b outcome" where
  "and_then (Returns x) f = f x"
| "and_then Panics f = Panics"
| "and_then Blocks f = Blocks"

text \<open>
  \<open>Lock\<close> on a mutex that is held waits for its release; a \<open>sync.Mutex\<close> is not
  reentrant. Every method of the pool releases the mutex at its return and nothing else
  releases it, so between calls it is free. A call that finds it held is a call made by
  the holder itself, from inside a method, and waits for a release that only its caller could
  make: it never returns.
\<close>

definition Lock :: "connections \<Rightarrow> connections outcome" where
  "Lock r = (if mutex r then Blocks else Returns (r\<lparr>mutex := True\<rparr>))"

definition Unlock :: "connections \<Rightarrow> connections" where
  "Unlock r = r\<lparr>mutex := False\<rparr>"

text \<open>\<open>close(c)\<close>: closing a channel that is closed already panics.\<close>

definition close_chan :: "chan \<Rightarrow> connections \<Rightarrow> connections outcome" where
  "close_chan c r =
     (if c \<in> closed r then Panics else Returns (r\<lparr>closed := insert c (closed r)\<rparr>))"

text \<open>\<open>len(r.conns)\<close>, which is 0 for the nil slice.\<close>

definition len_conns :: "connections \<Rightarrow> nat" where
  "len_conns r = (case conns r of None \<Rightarrow> 0 | Some cs \<Rightarrow> length cs)"

subsection \<open>Operations\<close>

text \<open>
  \<open>Add\<close>. The argument \<open>res\<close> is what the call that opens the socket returns, on either
  branch of the test of \<open>runtime.GOOS\<close>; which address \<open>linuxListenPacket\<close> asks for has no
  part in what follows. On success the connection, with a channel just made, is appended;
  \<open>append\<close> to the nil slice gives a slice of one element. The read loop that is started is a
  thread of its own and is not modelled.
\<close>

definition Add :: "connections \<Rightarrow> listen_result \<Rightarrow> error option \<times> connections" where
  "Add r res =
     (case res of
        Inl err \<Rightarrow> (Some err, r)
      | Inr pc \<Rightarrow>
          (None,
           r\<lparr>conns := Some ((case conns r of None \<Rightarrow> [] | Some cs \<Rightarrow> cs)
                  @ [\<lparr>conn = pc, done_c = made r\<rparr>]),
             made := Suc (made r)\<rparr>))"

text \<open>
  \<open>Close\<close>. The deferred \<open>Unlock\<close> runs at the return. A panic ends the run of the
  program, so no state is kept for it.
\<close>

fun close_all :: "connection list \<Rightarrow> connections \<Rightarrow> connections outcome" where
  "close_all [] r = Returns r"
| "close_all (c # cs) r = and_then (close_chan (done_c c) r) (close_all cs)"

definition Close :: "connections \<Rightarrow> connections outcome" where
  "Close r =
     and_then (Lock r) (\<lambda>r1.
       case conns r1 of
         None \<Rightarrow> Returns (Unlock r1)
       | Some cs \<Rightarrow>
           and_then (close_chan (done_p r1) r1) (\<lambda>r2.
             and_then (close_all cs r2) (\<lambda>r3.
               Returns (Unlock (r3\<lparr>conns := None\<rparr>)))))"

text \<open>
  \<open>rotate\<close>, named \<open>rotate_conns\<close> here. The threads started for the connections of
  the old slice, each of which closes one \<open>done\<close> channel ten seconds later, are not
  modelled: the old connections leave the pool here. In iteration \<open>i\<close> of the loop the socket
  call returns \<open>listen i\<close>, and the error of \<open>Add\<close> is dropped, as in the source.
\<close>

function rotate_loop :: "int \<Rightarrow> (int \<Rightarrow> listen_result) \<Rightarrow> connections \<Rightarrow> connections" where
  "rotate_loop i listen r =
     (if i < cpus r then rotate_loop (i + 1) listen (snd (Add r (listen i))) else r)"
  by pat_completeness auto
termination
  by (relation "measure (\<lambda>(i, listen, r). nat (cpus r - i))")
     (auto simp: Add_def split: sum.splits)

declare rotate_loop.simps [simp del]

definition rotate_conns :: "connections \<Rightarrow> (int \<Rightarrow> listen_result) \<Rightarrow> connections outcome" where
  "rotate_conns r listen =
     and_then (Lock r) (\<lambda>r1.
       Returns (Unlock (rotate_loop 0 listen (r1\<lparr>conns := Some []\<rparr>))))"

text \<open>
  \<open>Next\<close>. Go's \<open>%\<close> truncates towards zero, which is \<open>smod\<close>. The index expression
  \<open>r.conns[cur]\<close> panics when \<open>cur\<close> is not an index of the slice; the assignment to
  \<open>nextWrite\<close> comes before it.
\<close>

definition Next :: "connections \<Rightarrow> (PacketConn option \<times> connections) outcome" where
  "Next r =
     and_then (Lock r) (\<lambda>r1.
       case conns r1 of
         None \<Rightarrow> Returns (None, Unlock r1)
       | Some cs \<Rightarrow>
           if length cs = 0 then Returns (None, Unlock r1)
           else
             let cur = nextWrite r1;
                 r2 = r1\<lparr>nextWrite := (nextWrite r1 + 1) smod int (length cs)\<rparr>
             in if 0 \<le> cur \<and> cur < int (length cs)
                then Returns (Some (conn (cs ! nat cur)), Unlock r2)
                else Panics)"

text \<open>
  \<open>newConnections\<close>, with \<open>n\<close> for the parameter \<open>cpus\<close> and \<open>q\<close> for \<open>resps\<close>. The
  constructor takes the mutex of the pool it has just made and keeps it until it returns; in
  iteration \<open>i\<close> the socket call returns \<open>listen i\<close>. The result is the pointer returned:
  the pool, or nil (\<open>None\<close>). The thread started for \<open>rotations\<close> is not modelled.
\<close>

function newConnections_loop :: "int \<Rightarrow> int \<Rightarrow> (int \<Rightarrow> listen_result) \<Rightarrow> connections
    \<Rightarrow> connections option outcome" where
  "newConnections_loop i n listen r =
     (if i < n then
        (case Add r (listen i) of
           (Some err, r') \<Rightarrow> and_then (Close r') (\<lambda>r''. Returns None)
         | (None, r') \<Rightarrow> newConnections_loop (i + 1) n listen r')
      else Returns (Some r))"
  by pat_completeness auto
termination
  by (relation "measure (\<lambda>(i, n, listen, r). nat (n - i))") auto

declare newConnections_loop.simps [simp del]

definition newConnections :: "int \<Rightarrow> nat \<Rightarrow> (int \<Rightarrow> listen_result)
    \<Rightarrow> connections option outcome" where
  "newConnections n q listen =
     and_then
       (Lock \<lparr>mutex = False, done_p = 0, conns = None, resps = q, nextWrite = 0, cpus = n,
          made = 1, closed = {}\<rparr>)
       (\<lambda>r1. and_then (newConnections_loop 0 n listen r1) (\<lambda>p.
          Returns (map_option Unlock p)))"

text \<open>
  \<open>WriteMsg\<close>. \<open>packed\<close> is what \<open>msg.Pack()\<close> returns and \<open>writeTo c out\<close> what
  \<open>WriteTo\<close> returns on the socket \<open>c\<close> for the bytes \<open>out\<close> and the address given: the
  count of bytes written and the error.
\<close>

definition WriteMsg :: "connections \<Rightarrow> error + 8 word list
    \<Rightarrow> (PacketConn \<Rightarrow> 8 word list \<Rightarrow> int \<times> error option)
    \<Rightarrow> (error option \<times> connections) outcome" where
  "WriteMsg r packed writeTo =
     (case packed of
        Inl err \<Rightarrow> Returns (Some err, r)
      | Inr out \<Rightarrow>
          and_then (Next r) (\<lambda>(c, r').
            case c of
              None \<Rightarrow> Returns (Some NoConnection, r')
            | Some pc \<Rightarrow>
                (case writeTo pc out of
                   (n, Some err) \<Rightarrow> Returns (Some err, r')
                 | (n, None) \<Rightarrow>
                     if n < int (length out)
                     then Returns (Some (ShortWrite n (int (length out))), r')
                     else Returns (None, r'))))"

text \<open>A run of \<open>k\<close> calls of \<open>Next\<close>, one after the other, with the sockets they return.\<close>

fun Next_times :: "nat \<Rightarrow> connections \<Rightarrow> (PacketConn option list \<times> connections) outcome" where
  "Next_times 0 r = Returns ([], r)"
| "Next_times (Suc k) r =
     and_then (Next r) (\<lambda>(c, r').
       and_then (Next_times k r') (\<lambda>(cs, r''). Returns (c # cs, r'')))"

subsection \<open>Socket calls for the examples\<close>

definition all_open :: "int \<Rightarrow> listen_result" where
  "all_open i = Inr (nat i + 3)"

definition second_fails :: "int \<Rightarrow> listen_result" where
  "second_fails i = (if i = 1 then Inl (Foreign 24) else Inr (nat i + 7))"

subsection \<open>Notions for the statements\<close>

text \<open>
  The sockets that the calls \<open>listen i\<close>, \<dots>, \<open>listen (n - 1)\<close> open, in this order, and
  the connections that \<open>Add\<close> makes of a list of sockets when \<open>m\<close> channels have been made
  before.
\<close>

definition opened :: "(int \<Rightarrow> listen_result) \<Rightarrow> int \<Rightarrow> int \<Rightarrow> PacketConn list" where
  "opened listen i n =
     concat (map (\<lambda>j. case listen j of Inl err \<Rightarrow> [] | Inr pc \<Rightarrow> [pc]) [i..n - 1])"

fun fresh_conns :: "nat \<Rightarrow> PacketConn list \<Rightarrow> connection list" where
  "fresh_conns m [] = []"
| "fresh_conns m (pc # pcs) = \<lparr>conn = pc, done_c = m\<rparr> # fresh_conns (Suc m) pcs"

text \<open>
  What holds of a pool between two calls: the mutex is free, every channel in use has been
  made, and while the pool is open (its slice is not nil) the cursor is not negative and the
  channels of the pool and of its connections are different channels, none of them closed.
\<close>

definition pool_inv :: "connections \<Rightarrow> bool" where
  "pool_inv r =
     (\<not> mutex r \<and> done_p r < made r \<and> (\<forall>c \<in> closed r. c < made r) \<and>
      (case conns r of
         None \<Rightarrow> True
       | Some cs \<Rightarrow>
           0 \<le> nextWrite r \<and> done_p r \<notin> closed r \<and> distinct (map done_c cs) \<and>
           (\<forall>c \<in> set cs. done_c c < made r \<and> done_c c \<noteq> done_p r \<and> done_c c \<notin> closed r)))"

subsection \<open>Pools for the examples\<close>

text \<open>
  \<open>pool2\<close> is the pool that the constructor returns for two units when both sockets open;
  \<open>pool2_short\<close> is what a rotation leaves of it when the second socket fails to open;
  \<open>pool3\<close> holds three sockets, with the cursor at the second.
\<close>

definition pool2 :: connections where
  "pool2 = \<lparr>mutex = False, done_p = 0,
     conns = Some [\<lparr>conn = 3, done_c = 1\<rparr>, \<lparr>conn = 4, done_c = 2\<rparr>],
     resps = 0, nextWrite = 0, cpus = 2, made = 3, closed = {}\<rparr>"

definition pool2_short :: connections where
  "pool2_short = \<lparr>mutex = False, done_p = 0, conns = Some [\<lparr>conn = 7, done_c = 3\<rparr>],
     resps = 0, nextWrite = 0, cpus = 2, made = 4, closed = {}\<rparr>"

definition pool3 :: connections where
  "pool3 = \<lparr>mutex = False, done_p = 0,
     conns = Some [\<lparr>conn = 3, done_c = 1\<rparr>, \<lparr>conn = 4, done_c = 2\<rparr>, \<lparr>conn = 5, done_c = 3\<rparr>],
     resps = 0, nextWrite = 1, cpus = 3, made = 4, closed = {}\<rparr>"

text \<open>
  \<open>pool2_closed\<close> is what \<open>Close\<close> leaves of \<open>pool2\<close>, and \<open>pool2_reopened\<close> what a
  rotation in which both sockets open makes of that. \<open>writes_all\<close> is a socket write that
  sends every byte.
\<close>

definition pool2_closed :: connections where
  "pool2_closed = \<lparr>mutex = False, done_p = 0, conns = None, resps = 0, nextWrite = 0,
     cpus = 2, made = 3, closed = {0, 1, 2}\<rparr>"

definition pool2_reopened :: connections where
  "pool2_reopened = \<lparr>mutex = False, done_p = 0,
     conns = Some [\<lparr>conn = 3, done_c = 3\<rparr>, \<lparr>conn = 4, done_c = 4\<rparr>],
     resps = 0, nextWrite = 0, cpus = 2, made = 5, closed = {0, 1, 2}\<rparr>"

definition writes_all :: "PacketConn \<Rightarrow> 8 word list \<Rightarrow> int \<times> error option" where
  "writes_all c out = (int (length out), None)"

section \<open>Properties of the exchange table\<close>

lemma delete_loop_distinct:
  "distinct ks \<Longrightarrow>
   delete_loop ks removed r =
     (removed @ map (xchgs r) ks, r\<lparr>xchgs := xchgs r |` (- set ks)\<rparr>)"
proof (induction ks arbitrary: removed r)
  case Nil
  then show ?case by simp
next
  case (Cons k ks)
  let ?r = "r\<lparr>xchgs := (xchgs r)(k := None)\<rparr>"
  from Cons.prems have k: "k \<notin> set ks" and d: "distinct ks" by simp_all
  from k have m: "map (xchgs ?r) ks = map (xchgs r) ks" by (induction ks) auto
  have "xchgs ?r |` (- set ks) = xchgs r |` (- set (k # ks))"
    by (rule ext) (simp add: restrict_map_def)
  then have s: "?r\<lparr>xchgs := xchgs ?r |` (- set ks)\<rparr> = r\<lparr>xchgs := xchgs r |` (- set (k # ks))\<rparr>"
    by simp
  have "delete_loop (k # ks) removed r = delete_loop ks (removed @ [xchgs r k]) ?r"
    by simp
  also have "\<dots> = ((removed @ [xchgs r k]) @ map (xchgs ?r) ks,
      ?r\<lparr>xchgs := xchgs ?r |` (- set ks)\<rparr>)"
    by (rule Cons.IH [OF d])
  also have "\<dots> = (removed @ map (xchgs r) (k # ks), r\<lparr>xchgs := xchgs r |` (- set (k # ks))\<rparr>)"
    unfolding m s by simp
  finally show ?case .
qed

lemma delete_distinct:
  "distinct ks \<Longrightarrow> delete r ks = (map (xchgs r) ks, r\<lparr>xchgs := xchgs r |` (- set ks)\<rparr>)"
  by (simp add: delete_def delete_loop_distinct)

lemma expired_keys_filter:
  "expired_keys r now timeout order keys =
     keys @ filter (\<lambda>k. \<exists>req. xchgs r k = Some req \<and> Timestamp req \<noteq> 0
                          \<and> Timestamp req + timeout < now) order"
  by (induction order arbitrary: keys)
     (auto simp: IsZero_def After_def Add_time_def split: option.splits)

lemma all_keys_append: "all_keys order keys = keys @ order"
  by (induction order arbitrary: keys) auto


lemma removeExpired_eq:
  assumes "distinct order"
  shows "removeExpired r now timeout order =
    (map (xchgs r) [k \<leftarrow> order. \<exists>req. xchgs r k = Some req \<and> Timestamp req \<noteq> 0
                          \<and> Timestamp req + timeout < now],
     r\<lparr>xchgs := xchgs r |` (- {k \<in> set order. \<exists>req. xchgs r k = Some req \<and> Timestamp req \<noteq> 0
                          \<and> Timestamp req + timeout < now})\<rparr>)"
  using assms by (simp add: removeExpired_def expired_keys_filter delete_distinct)

text \<open>
  C1. Let \<open>order\<close> be any order in which the loop may visit the keys of the table. Then
  \<open>removeExpired\<close> returns exactly the records whose timestamp is not zero and for which
  \<open>now\<close> is strictly after timestamp + timeout, each once (the slice is as long as there are
  such keys); it deletes the keys of these records and leaves every other entry as it was; a
  record with a zero timestamp is not returned; and a record that is returned is not in the
  table that is left.
\<close>
theorem removeExpired_exact:
  assumes "range_order r order"
  shows "set (fst (removeExpired r now timeout order)) =
           Some ` {req \<in> ran (xchgs r). Timestamp req \<noteq> 0 \<and> Timestamp req + timeout < now}
       \<and> length (fst (removeExpired r now timeout order)) =
           card {k. \<exists>req. xchgs r k = Some req \<and> Timestamp req \<noteq> 0
                          \<and> Timestamp req + timeout < now}
       \<and> (\<forall>k. xchgs (snd (removeExpired r now timeout order)) k =
              (case xchgs r k of
                 None \<Rightarrow> None
               | Some req \<Rightarrow>
                   if Timestamp req \<noteq> 0 \<and> Timestamp req + timeout < now then None
                   else Some req))
       \<and> (\<forall>req. Timestamp req = 0 \<longrightarrow> Some req \<notin> set (fst (removeExpired r now timeout order)))
       \<and> (\<forall>req. Some req \<in> set (fst (removeExpired r now timeout order)) \<longrightarrow>
              req \<notin> ran (xchgs (snd (removeExpired r now timeout order))))"
proof -
  let ?E = "\<lambda>req. Timestamp req \<noteq> 0 \<and> Timestamp req + timeout < now"
  let ?P = "\<lambda>k. \<exists>req. xchgs r k = Some req \<and> ?E req"
  from assms have d: "distinct order" and s: "set order = dom (xchgs r)"
    by (simp_all add: range_order_def)
  have res: "removeExpired r now timeout order =
      (map (xchgs r) (filter ?P order), r\<lparr>xchgs := xchgs r |` (- {k \<in> set order. ?P k})\<rparr>)"
    using d by (rule removeExpired_eq)
  have keys: "{k \<in> set order. ?P k} = {k. ?P k}"
    using s by auto
  have c1: "set (fst (removeExpired r now timeout order)) = Some ` {req \<in> ran (xchgs r). ?E req}"
  proof -
    have "xchgs r ` {k. ?P k} = Some ` {req \<in> ran (xchgs r). ?E req}"
      by (force simp: ran_def image_iff)
    then show ?thesis by (simp add: res keys)
  qed
  have c2: "length (fst (removeExpired r now timeout order)) = card {k. ?P k}"
  proof -
    have "distinct (filter ?P order)" using d by simp
    then have "card (set (filter ?P order)) = length (filter ?P order)"
      by (rule distinct_card)
    then have "card {k \<in> set order. ?P k} = length (filter ?P order)"
      by simp
    then show ?thesis by (simp add: res keys)
  qed
  have c3: "\<forall>k. xchgs (snd (removeExpired r now timeout order)) k =
      (case xchgs r k of None \<Rightarrow> None | Some req \<Rightarrow> if ?E req then None else Some req)"
    using s by (auto simp: res restrict_map_def split: option.splits)
  have c4: "\<forall>req. Timestamp req = 0 \<longrightarrow> Some req \<notin> set (fst (removeExpired r now timeout order))"
    unfolding c1 by auto
  have c5: "\<forall>req. Some req \<in> set (fst (removeExpired r now timeout order)) \<longrightarrow>
      req \<notin> ran (xchgs (snd (removeExpired r now timeout order)))"
  proof (intro allI impI notI)
    fix req
    assume "Some req \<in> set (fst (removeExpired r now timeout order))"
    then have e: "?E req" unfolding c1 by auto
    assume "req \<in> ran (xchgs (snd (removeExpired r now timeout order)))"
    then obtain k where "xchgs (snd (removeExpired r now timeout order)) k = Some req"
      by (auto simp: ran_def)
    with c3 have "(case xchgs r k of None \<Rightarrow> None | Some q \<Rightarrow> if ?E q then None else Some q)
        = Some req" by simp
    with e show False by (auto split: option.splits if_splits)
  qed
  from c1 c2 c3 c4 c5 show ?thesis by blast
qed


text \<open>
  C2. When no record is stored under the key derived from the ID and the name of \<open>req\<close>,
  \<open>add\<close> returns nil and stores \<open>req\<close> under that key. A second \<open>add\<close>, of any request
  whose ID and name derive the same key, returns the error "key already in use" and leaves the
  table as it was: the key still maps to the first record.
\<close>
theorem add_duplicate_key:
  assumes "xchgs r (xchgKey lowerRunes (ID req) (Name req)) = None"
    and "xchgKey lowerRunes (ID req') (Name req') = xchgKey lowerRunes (ID req) (Name req)"
  shows "add lowerRunes r req = (None, r\<lparr>xchgs := (xchgs r)(xchgKey lowerRunes (ID req) (Name req) \<mapsto> req)\<rparr>)
       \<and> add lowerRunes (snd (add lowerRunes r req)) req' =
           (Some (KeyInUse (xchgKey lowerRunes (ID req) (Name req))), snd (add lowerRunes r req))
       \<and> xchgs (snd (add lowerRunes (snd (add lowerRunes r req)) req')) =
           (xchgs r)(xchgKey lowerRunes (ID req) (Name req) \<mapsto> req)"
  using assms by (simp add: add_def Let_def)

lemma delete_single:
  "delete r [k] = ([xchgs r k], r\<lparr>xchgs := (xchgs r)(k := None)\<rparr>)"
  by (simp add: delete_def)

lemma remove_present:
  "xchgs r (xchgKey lowerRunes qid name) = Some req \<Longrightarrow>
   remove lowerRunes r qid name = Returns (Some req, r\<lparr>xchgs := (xchgs r)(xchgKey lowerRunes qid name := None)\<rparr>)"
  by (simp add: remove_def Let_def delete_single)

lemma remove_absent:
  "xchgs r (xchgKey lowerRunes qid name) = None \<Longrightarrow> remove lowerRunes r qid name = Returns (None, r)"
  by (simp add: remove_def Let_def)

text \<open>
  C3. \<open>remove\<close> with the key of a stored record returns that record and deletes the key; a
  second \<open>remove\<close> with the same ID and name then returns nil and changes nothing, as does a
  \<open>remove\<close> with a key that the table does not hold. In particular, after a successful
  \<open>add\<close> of \<open>req\<close>, \<open>remove\<close> with its ID and name returns \<open>req\<close> and the table is again
  the one before the \<open>add\<close>.
\<close>
theorem remove_once:
  "(xchgs r (xchgKey lowerRunes qid name) = Some req \<longrightarrow>
      remove lowerRunes r qid name =
        Returns (Some req, r\<lparr>xchgs := (xchgs r)(xchgKey lowerRunes qid name := None)\<rparr>)
    \<and> remove lowerRunes (r\<lparr>xchgs := (xchgs r)(xchgKey lowerRunes qid name := None)\<rparr>) qid name =
        Returns (None, r\<lparr>xchgs := (xchgs r)(xchgKey lowerRunes qid name := None)\<rparr>))
   \<and> (xchgs r (xchgKey lowerRunes qid name) = None \<longrightarrow> remove lowerRunes r qid name = Returns (None, r))
   \<and> (fst (add lowerRunes r req) = None \<longrightarrow>
        remove lowerRunes (snd (add lowerRunes r req)) (ID req) (Name req) = Returns (Some req, r))"
proof (intro conjI impI)
  assume "xchgs r (xchgKey lowerRunes qid name) = Some req"
  then show "remove lowerRunes r qid name =
      Returns (Some req, r\<lparr>xchgs := (xchgs r)(xchgKey lowerRunes qid name := None)\<rparr>)"
    by (rule remove_present)
next
  show "remove lowerRunes (r\<lparr>xchgs := (xchgs r)(xchgKey lowerRunes qid name := None)\<rparr>) qid name =
      Returns (None, r\<lparr>xchgs := (xchgs r)(xchgKey lowerRunes qid name := None)\<rparr>)"
    by (rule remove_absent) simp
next
  assume "xchgs r (xchgKey lowerRunes qid name) = None"
  then show "remove lowerRunes r qid name = Returns (None, r)"
    by (rule remove_absent)
next
  assume a: "fst (add lowerRunes r req) = None"
  let ?k = "xchgKey lowerRunes (ID req) (Name req)"
  from a have n: "xchgs r ?k = None"
    by (auto simp: add_def Let_def split: if_splits)
  then have s: "snd (add lowerRunes r req) = r\<lparr>xchgs := (xchgs r)(?k \<mapsto> req)\<rparr>"
    by (simp add: add_def Let_def)
  have "(xchgs r)(?k := None) = xchgs r"
    using n by (rule_tac ext) simp
  then show "remove lowerRunes (snd (add lowerRunes r req)) (ID req) (Name req) = Returns (Some req, r)"
    by (simp add: s remove_present)
qed

lemma toLowerByte_dot: "toLowerByte c = CHR ''.'' \<longleftrightarrow> c = CHR ''.''"
proof (cases "65 \<le> (of_char c :: nat) \<and> (of_char c :: nat) \<le> 90")
  case True
  have "(of_char (toLowerByte c) :: nat) = ((of_char c :: nat) + 32) mod 256"
    using True by (simp add: toLowerByte_def)
  with True have "(of_char (toLowerByte c) :: nat) \<noteq> 46" by auto
  moreover from True have "(of_char c :: nat) \<noteq> 46" by auto
  ultimately show ?thesis by auto
next
  case False
  then have "toLowerByte c = c"
    unfolding toLowerByte_def by (rule if_not_P)
  then show ?thesis by simp
qed

lemma RemoveLastDot_lower_bytes:
  "RemoveLastDot (map toLowerByte s) = map toLowerByte (RemoveLastDot s)"
  by (cases s rule: rev_cases) (auto simp: RemoveLastDot_def toLowerByte_dot map_butlast)

lemma isASCII_RemoveLastDot: "isASCII s \<Longrightarrow> isASCII (RemoveLastDot s)"
  by (auto simp: isASCII_def RemoveLastDot_def list_all_iff dest: in_set_butlastD)

lemma ToLower_ASCII: "isASCII s \<Longrightarrow> ToLower lowerRunes s = map toLowerByte s"
  by (simp add: ToLower_def)

lemma RemoveLastDot_no_dot: "name = [] \<or> last name \<noteq> CHR ''.'' \<Longrightarrow> RemoveLastDot name = name"
  by (auto simp: RemoveLastDot_def)

lemma RemoveLastDot_append_dot: "RemoveLastDot (name @ ''.'') = name"
  by (simp add: RemoveLastDot_def)

lemma ASCII_letter_case:
  assumes "isASCII name" and "isASCII name'"
    and "map toLowerByte name = map toLowerByte name'"
  shows "ToLower lowerRunes (RemoveLastDot name) = ToLower lowerRunes (RemoveLastDot name')"
proof -
  have "ToLower lowerRunes (RemoveLastDot name) = map toLowerByte (RemoveLastDot name)"
    using assms(1) by (intro ToLower_ASCII isASCII_RemoveLastDot)
  also have "\<dots> = RemoveLastDot (map toLowerByte name)"
    by (rule RemoveLastDot_lower_bytes [symmetric])
  also have "\<dots> = RemoveLastDot (map toLowerByte name')"
    by (simp only: assms(3))
  also have "\<dots> = map toLowerByte (RemoveLastDot name')"
    by (rule RemoveLastDot_lower_bytes)
  also have "\<dots> = ToLower lowerRunes (RemoveLastDot name')"
    using assms(2) by (intro ToLower_ASCII [symmetric] isASCII_RemoveLastDot)
  finally show ?thesis .
qed

lemma add_then_remove_same_key:
  assumes "xchgKey lowerRunes (ID req) (Name req) = xchgKey lowerRunes qid name'"
    and "fst (add lowerRunes r req) = None"
  shows "remove lowerRunes (snd (add lowerRunes r req)) qid name' = Returns (Some req, r)"
proof -
  let ?k = "xchgKey lowerRunes qid name'"
  from assms have n: "xchgs r ?k = None"
    by (auto simp: add_def Let_def split: if_splits)
  then have s: "snd (add lowerRunes r req) = r\<lparr>xchgs := (xchgs r)(?k \<mapsto> req)\<rparr>"
    by (simp add: add_def Let_def assms(1))
  have "(xchgs r)(?k := None) = xchgs r"
    using n by (rule_tac ext) simp
  then show ?thesis
    by (simp add: s remove_present)
qed

text \<open>
  C8. For every function on the rune path of \<open>ToLower\<close>: two names that are equal after the
  trailing dot is stripped and the letters are lower-cased derive the same key with every
  transaction ID; hence a record stored by \<open>add\<close> under the one name is found and returned
  by \<open>remove\<close> under the other. Such pairs are: two names without trailing dot that
  \<open>ToLower\<close> maps to the same string, whatever their letters; two ASCII names that differ
  in the case of letters, with or without the dot; and a name without trailing dot and the
  same name with the dot.
\<close>
theorem xchgKey_normalized:
  "(ToLower lowerRunes (RemoveLastDot name) = ToLower lowerRunes (RemoveLastDot name') \<longrightarrow>
      xchgKey lowerRunes qid name = xchgKey lowerRunes qid name'
    \<and> (\<forall>r req. ID req = qid \<and> Name req = name \<and> fst (add lowerRunes r req) = None \<longrightarrow>
          remove lowerRunes (snd (add lowerRunes r req)) qid name' = Returns (Some req, r)))
   \<and> ((name = [] \<or> last name \<noteq> CHR ''.'') \<and> (name' = [] \<or> last name' \<noteq> CHR ''.'')
        \<and> ToLower lowerRunes name = ToLower lowerRunes name' \<longrightarrow>
        ToLower lowerRunes (RemoveLastDot name) = ToLower lowerRunes (RemoveLastDot name'))
   \<and> (isASCII name \<and> isASCII name' \<and> map toLowerByte name = map toLowerByte name' \<longrightarrow>
        ToLower lowerRunes (RemoveLastDot name) = ToLower lowerRunes (RemoveLastDot name'))
   \<and> ((name = [] \<or> last name \<noteq> CHR ''.'') \<longrightarrow>
        ToLower lowerRunes (RemoveLastDot (name @ ''.'')) = ToLower lowerRunes (RemoveLastDot name)
      \<and> xchgKey lowerRunes qid (name @ ''.'') = xchgKey lowerRunes qid name)"
proof (intro conjI impI allI)
  assume "ToLower lowerRunes (RemoveLastDot name) = ToLower lowerRunes (RemoveLastDot name')"
  then show k: "xchgKey lowerRunes qid name = xchgKey lowerRunes qid name'"
    by (simp add: xchgKey_def)
  fix r req
  assume a: "ID req = qid \<and> Name req = name \<and> fst (add lowerRunes r req) = None"
  with k have "xchgKey lowerRunes (ID req) (Name req) = xchgKey lowerRunes qid name'" by simp
  with a show "remove lowerRunes (snd (add lowerRunes r req)) qid name' = Returns (Some req, r)"
    by (intro add_then_remove_same_key) simp_all
next
  assume a: "(name = [] \<or> last name \<noteq> CHR ''.'') \<and> (name' = [] \<or> last name' \<noteq> CHR ''.'')
        \<and> ToLower lowerRunes name = ToLower lowerRunes name'"
  then have "RemoveLastDot name = name" and "RemoveLastDot name' = name'"
    by (simp_all add: RemoveLastDot_no_dot)
  with a show "ToLower lowerRunes (RemoveLastDot name) = ToLower lowerRunes (RemoveLastDot name')"
    by simp
next
  assume "isASCII name \<and> isASCII name' \<and> map toLowerByte name = map toLowerByte name'"
  then show "ToLower lowerRunes (RemoveLastDot name) = ToLower lowerRunes (RemoveLastDot name')"
    by (intro ASCII_letter_case) simp_all
next
  assume a: "name = [] \<or> last name \<noteq> CHR ''.''"
  then have e: "RemoveLastDot (name @ ''.'') = RemoveLastDot name"
    by (simp only: RemoveLastDot_append_dot RemoveLastDot_no_dot)
  then show "ToLower lowerRunes (RemoveLastDot (name @ ''.'')) =
      ToLower lowerRunes (RemoveLastDot name)"
    by simp
  from e show "xchgKey lowerRunes qid (name @ ''.'') = xchgKey lowerRunes qid name"
    by (simp add: xchgKey_def)
qed

text \<open>
  C9. Let \<open>order\<close> be any order in which the loop may visit the keys of the table. Then
  \<open>removeAll\<close> returns the record of every key, in that order, which are the K records of
  the table for K the number of its keys, and leaves the table empty. No timestamp is read.
\<close>
theorem removeAll_xchg_drains:
  assumes "range_order r order"
  shows "fst (removeAll_xchg r order) = map (xchgs r) order
       \<and> set (fst (removeAll_xchg r order)) = Some ` ran (xchgs r)
       \<and> length (fst (removeAll_xchg r order)) = card (dom (xchgs r))
       \<and> xchgs (snd (removeAll_xchg r order)) = Map.empty"
proof -
  from assms have d: "distinct order" and s: "set order = dom (xchgs r)"
    by (simp_all add: range_order_def)
  have res: "removeAll_xchg r order = (map (xchgs r) order, r\<lparr>xchgs := xchgs r |` (- set order)\<rparr>)"
    using d by (simp add: removeAll_xchg_def all_keys_append delete_distinct)
  have c2: "set (fst (removeAll_xchg r order)) = Some ` ran (xchgs r)"
    using s by (force simp: res ran_def image_iff dom_def)
  have c3: "length (fst (removeAll_xchg r order)) = card (dom (xchgs r))"
    using distinct_card [OF d] s by (simp add: res)
  have c4: "xchgs (snd (removeAll_xchg r order)) = Map.empty"
    using s by (auto simp: res restrict_map_def)
  from res c2 c3 c4 show ?thesis by simp
qed


lemma range_order_abc: "range_order table_abc order_abc"
  by (auto simp: range_order_def table_abc_def order_abc_def)

lemma table_abc_built:
  "table_abc = snd (add no_unicode (snd (add no_unicode (snd (add no_unicode newXchgMgr req_a)) req_b)) req_c)"
proof -
  have "xchgKey no_unicode 7 ''a.Example.'' = ''7:a.example''" "xchgKey no_unicode 8 ''b.example'' = ''8:b.example''"
    "xchgKey no_unicode 9 ''C.example'' = ''9:c.example''"
    by code_simp+
  then show ?thesis
    by (simp add: table_abc_def add_def newXchgMgr_def req_a_def req_b_def req_c_def)
qed

theorem removeExpired_exact_witness:
  "range_order table_abc order_abc
   \<and> fst (removeExpired table_abc 100 10 order_abc) = [Some req_a]
   \<and> xchgs (snd (removeExpired table_abc 100 10 order_abc)) ''7:a.example'' = None
   \<and> xchgs (snd (removeExpired table_abc 100 10 order_abc)) ''8:b.example'' = Some req_b
   \<and> xchgs (snd (removeExpired table_abc 100 10 order_abc)) ''9:c.example'' = Some req_c
   \<and> set (fst (removeExpired table_abc 100 10 order_abc)) =
       Some ` {req \<in> ran (xchgs table_abc). Timestamp req \<noteq> 0 \<and> Timestamp req + 10 < 100}
   \<and> Some req_b \<notin> set (fst (removeExpired table_abc 100 10 order_abc))"
proof -
  have e: "removeExpired table_abc 100 10 order_abc =
      delete table_abc [''7:a.example'']"
    by (simp add: removeExpired_def table_abc_def order_abc_def req_a_def req_b_def req_c_def
        IsZero_def After_def Add_time_def)
  have t: "Timestamp req_b = 0" by (simp add: req_b_def)
  note T = removeExpired_exact [OF range_order_abc, of 100 10]
  have c1: "fst (removeExpired table_abc 100 10 order_abc) = [Some req_a]"
    unfolding e delete_single by (simp add: table_abc_def)
  have c2: "xchgs (snd (removeExpired table_abc 100 10 order_abc)) ''7:a.example'' = None"
    and c3: "xchgs (snd (removeExpired table_abc 100 10 order_abc)) ''8:b.example'' = Some req_b"
    and c4: "xchgs (snd (removeExpired table_abc 100 10 order_abc)) ''9:c.example'' = Some req_c"
    unfolding e delete_single by (simp_all add: table_abc_def)
  from T have c5: "set (fst (removeExpired table_abc 100 10 order_abc)) =
      Some ` {req \<in> ran (xchgs table_abc). Timestamp req \<noteq> 0 \<and> Timestamp req + 10 < 100}"
    by (rule conjunct1)
  from T have "\<forall>req. Timestamp req = 0 \<longrightarrow>
      Some req \<notin> set (fst (removeExpired table_abc 100 10 order_abc))"
    by blast
  with t have c6: "Some req_b \<notin> set (fst (removeExpired table_abc 100 10 order_abc))"
    by blast
  from range_order_abc c1 c2 c3 c4 c5 c6 show ?thesis
    by (intro conjI)
qed

theorem add_duplicate_key_witness:
  "xchgs newXchgMgr (xchgKey no_unicode (ID req_a) (Name req_a)) = None
   \<and> xchgKey no_unicode (ID req_a2) (Name req_a2) = xchgKey no_unicode (ID req_a) (Name req_a)
   \<and> add no_unicode newXchgMgr req_a = (None, \<lparr>xchgs = [''7:a.example'' \<mapsto> req_a]\<rparr>)
   \<and> add no_unicode (snd (add no_unicode newXchgMgr req_a)) req_a2 =
       (Some (KeyInUse ''7:a.example''), snd (add no_unicode newXchgMgr req_a))
   \<and> xchgs (snd (add no_unicode (snd (add no_unicode newXchgMgr req_a)) req_a2)) = [''7:a.example'' \<mapsto> req_a]"
proof -
  have k: "xchgKey no_unicode (ID req_a) (Name req_a) = ''7:a.example''"
    unfolding req_a_def by code_simp
  have k2: "xchgKey no_unicode (ID req_a2) (Name req_a2) = ''7:a.example''"
    unfolding req_a2_def by code_simp
  have h1: "xchgs newXchgMgr (xchgKey no_unicode (ID req_a) (Name req_a)) = None"
    by (simp add: newXchgMgr_def)
  have h2: "xchgKey no_unicode (ID req_a2) (Name req_a2) = xchgKey no_unicode (ID req_a) (Name req_a)"
    by (simp add: k k2)
  note T = add_duplicate_key [OF h1 h2, unfolded k]
  have m: "(xchgs newXchgMgr)(''7:a.example'' \<mapsto> req_a) = [''7:a.example'' \<mapsto> req_a]"
    by (simp add: newXchgMgr_def)
  have n: "newXchgMgr\<lparr>xchgs := [''7:a.example'' \<mapsto> req_a]\<rparr> =
      \<lparr>xchgs = [''7:a.example'' \<mapsto> req_a]\<rparr>"
    by (simp add: newXchgMgr_def)
  from T have c1: "add no_unicode newXchgMgr req_a = (None, \<lparr>xchgs = [''7:a.example'' \<mapsto> req_a]\<rparr>)"
    unfolding m n by (rule conjunct1)
  from T have c2: "add no_unicode (snd (add no_unicode newXchgMgr req_a)) req_a2 =
       (Some (KeyInUse ''7:a.example''), snd (add no_unicode newXchgMgr req_a))"
    by blast
  from T have c3: "xchgs (snd (add no_unicode (snd (add no_unicode newXchgMgr req_a)) req_a2)) =
      [''7:a.example'' \<mapsto> req_a]"
    unfolding m by blast
  from h1 h2 c1 c2 c3 show ?thesis by blast
qed

theorem remove_once_witness:
  "xchgs table_abc (xchgKey no_unicode 7 ''A.EXAMPLE'') = Some req_a
   \<and> remove no_unicode table_abc 7 ''A.EXAMPLE'' =
       Returns (Some req_a, table_abc\<lparr>xchgs := (xchgs table_abc)(''7:a.example'' := None)\<rparr>)
   \<and> remove no_unicode (table_abc\<lparr>xchgs := (xchgs table_abc)(''7:a.example'' := None)\<rparr>) 7 ''A.EXAMPLE'' =
       Returns (None, table_abc\<lparr>xchgs := (xchgs table_abc)(''7:a.example'' := None)\<rparr>)
   \<and> xchgs table_abc (xchgKey no_unicode 1 ''x'') = None
   \<and> remove no_unicode table_abc 1 ''x'' = Returns (None, table_abc)
   \<and> fst (add no_unicode newXchgMgr req_a) = None
   \<and> remove no_unicode (snd (add no_unicode newXchgMgr req_a)) (ID req_a) (Name req_a) =
       Returns (Some req_a, newXchgMgr)"
proof -
  have k: "xchgKey no_unicode 7 ''A.EXAMPLE'' = ''7:a.example''" by code_simp
  have kx: "xchgKey no_unicode 1 ''x'' = ''1:x''" by code_simp
  have ka: "xchgKey no_unicode (ID req_a) (Name req_a) = ''7:a.example''"
    unfolding req_a_def by code_simp
  have h1: "xchgs table_abc (xchgKey no_unicode 7 ''A.EXAMPLE'') = Some req_a"
    by (simp add: k table_abc_def)
  have h2: "xchgs table_abc (xchgKey no_unicode 1 ''x'') = None"
    by (simp add: kx table_abc_def)
  have h3: "fst (add no_unicode newXchgMgr req_a) = None"
    by (simp add: add_def ka newXchgMgr_def)
  from remove_once [of table_abc no_unicode 7 "''A.EXAMPLE''" req_a] h1
  have c1: "remove no_unicode table_abc 7 ''A.EXAMPLE'' =
       Returns (Some req_a, table_abc\<lparr>xchgs := (xchgs table_abc)(''7:a.example'' := None)\<rparr>)
     \<and> remove no_unicode (table_abc\<lparr>xchgs := (xchgs table_abc)(''7:a.example'' := None)\<rparr>) 7 ''A.EXAMPLE'' =
       Returns (None, table_abc\<lparr>xchgs := (xchgs table_abc)(''7:a.example'' := None)\<rparr>)"
    by (simp add: k)
  from remove_once [of table_abc no_unicode 1 "''x''"] h2
  have c2: "remove no_unicode table_abc 1 ''x'' = Returns (None, table_abc)"
    by blast
  from remove_once [of newXchgMgr no_unicode _ _ req_a] h3
  have c3: "remove no_unicode (snd (add no_unicode newXchgMgr req_a)) (ID req_a) (Name req_a) =
       Returns (Some req_a, newXchgMgr)"
    by blast
  from h1 c1 h2 c2 h3 c3 show ?thesis by blast
qed

theorem xchgKey_normalized_witness:
  "ToLower no_unicode (RemoveLastDot ''WWW.Example.COM.'') =
     ToLower no_unicode (RemoveLastDot ''www.example.com'')
   \<and> xchgKey no_unicode 7 ''WWW.Example.COM.'' = ''7:www.example.com''
   \<and> xchgKey no_unicode 7 ''www.example.com'' = ''7:www.example.com''
   \<and> fst (add no_unicode newXchgMgr req_w) = None
   \<and> remove no_unicode (snd (add no_unicode newXchgMgr req_w)) 7 ''www.example.com'' =
       Returns (Some req_w, newXchgMgr)
   \<and> isASCII ''Example.COM.'' \<and> isASCII ''example.com.''
   \<and> map toLowerByte ''Example.COM.'' = map toLowerByte ''example.com.''
   \<and> ToLower no_unicode (RemoveLastDot ''Example.COM.'') =
       ToLower no_unicode (RemoveLastDot ''example.com.'')
   \<and> last ''example.com'' \<noteq> CHR ''.''
   \<and> xchgKey no_unicode 7 (''example.com'' @ ''.'') = xchgKey no_unicode 7 ''example.com''
   \<and> \<not> isASCII name_E_acute
   \<and> last name_E_acute \<noteq> CHR ''.'' \<and> last name_e_acute \<noteq> CHR ''.''
   \<and> ToLower lower_e_acute name_E_acute = ToLower lower_e_acute name_e_acute
   \<and> xchgKey lower_e_acute 7 name_E_acute = xchgKey lower_e_acute 7 name_e_acute
   \<and> fst (add lower_e_acute newXchgMgr req_e) = None
   \<and> remove lower_e_acute (snd (add lower_e_acute newXchgMgr req_e)) 7 name_e_acute =
       Returns (Some req_e, newXchgMgr)"
proof -
  have h: "ToLower no_unicode (RemoveLastDot ''WWW.Example.COM.'') =
      ToLower no_unicode (RemoveLastDot ''www.example.com'')"
    by code_simp
  have k: "xchgKey no_unicode 7 ''www.example.com'' = ''7:www.example.com''" by code_simp
  have kw: "xchgKey no_unicode (ID req_w) (Name req_w) = ''7:www.example.com''"
    unfolding req_w_def by code_simp
  have a: "fst (add no_unicode newXchgMgr req_w) = None"
    by (simp add: add_def kw newXchgMgr_def)
  note T = xchgKey_normalized [of no_unicode "''WWW.Example.COM.''" "''www.example.com''" 7]
  from T h k have c1: "xchgKey no_unicode 7 ''WWW.Example.COM.'' = ''7:www.example.com''"
    by simp
  from T h have "ID req_w = 7 \<and> Name req_w = ''WWW.Example.COM.''
      \<and> fst (add no_unicode newXchgMgr req_w) = None
      \<longrightarrow> remove no_unicode (snd (add no_unicode newXchgMgr req_w)) 7 ''www.example.com'' =
        Returns (Some req_w, newXchgMgr)"
    by blast
  with a have c2: "remove no_unicode (snd (add no_unicode newXchgMgr req_w)) 7
      ''www.example.com'' = Returns (Some req_w, newXchgMgr)"
    by (simp add: req_w_def)
  have h2: "isASCII ''Example.COM.''" "isASCII ''example.com.''"
    "map toLowerByte ''Example.COM.'' = map toLowerByte ''example.com.''"
    by code_simp+
  from xchgKey_normalized [of no_unicode "''Example.COM.''" "''example.com.''" 7] h2
  have c3: "ToLower no_unicode (RemoveLastDot ''Example.COM.'') =
      ToLower no_unicode (RemoveLastDot ''example.com.'')"
    by blast
  have h3: "last ''example.com'' \<noteq> CHR ''.''" by simp
  from xchgKey_normalized [of no_unicode "''example.com''" _ 7] h3
  have c4: "xchgKey no_unicode 7 (''example.com'' @ ''.'') = xchgKey no_unicode 7 ''example.com''"
    by blast
  have n: "\<not> isASCII name_E_acute"
    unfolding name_E_acute_def by code_simp
  have l: "last name_E_acute \<noteq> CHR ''.''" "last name_e_acute \<noteq> CHR ''.''"
    by (simp_all add: name_E_acute_def name_e_acute_def)
  have e: "ToLower lower_e_acute name_E_acute = ToLower lower_e_acute name_e_acute"
    unfolding name_E_acute_def name_e_acute_def by code_simp
  note U = xchgKey_normalized [of lower_e_acute name_E_acute name_e_acute 7]
  from U l e have s: "ToLower lower_e_acute (RemoveLastDot name_E_acute) =
      ToLower lower_e_acute (RemoveLastDot name_e_acute)"
    by blast
  with U have c5: "xchgKey lower_e_acute 7 name_E_acute = xchgKey lower_e_acute 7 name_e_acute"
    by blast
  have "xchgs newXchgMgr (xchgKey lower_e_acute (ID req_e) (Name req_e)) = None"
    by (simp add: newXchgMgr_def)
  then have a2: "fst (add lower_e_acute newXchgMgr req_e) = None"
    by (simp add: add_def Let_def)
  from U s have "ID req_e = 7 \<and> Name req_e = name_E_acute
      \<and> fst (add lower_e_acute newXchgMgr req_e) = None
      \<longrightarrow> remove lower_e_acute (snd (add lower_e_acute newXchgMgr req_e)) 7 name_e_acute =
        Returns (Some req_e, newXchgMgr)"
    by blast
  with a2 have c6: "remove lower_e_acute (snd (add lower_e_acute newXchgMgr req_e)) 7
      name_e_acute = Returns (Some req_e, newXchgMgr)"
    by (simp add: req_e_def)
  from h c1 k a c2 h2 c3 h3 c4 n l e c5 a2 c6 show ?thesis by blast
qed

theorem removeAll_xchg_drains_witness:
  "range_order table_abc order_abc
   \<and> fst (removeAll_xchg table_abc order_abc) = [Some req_c, Some req_a, Some req_b]
   \<and> length (fst (removeAll_xchg table_abc order_abc)) = card (dom (xchgs table_abc))
   \<and> xchgs (snd (removeAll_xchg table_abc order_abc)) = Map.empty"
proof -
  note T = removeAll_xchg_drains [OF range_order_abc]
  from T have "fst (removeAll_xchg table_abc order_abc) = map (xchgs table_abc) order_abc"
    by (rule conjunct1)
  then have c1: "fst (removeAll_xchg table_abc order_abc) = [Some req_c, Some req_a, Some req_b]"
    by (simp add: table_abc_def order_abc_def)
  from T have c2: "length (fst (removeAll_xchg table_abc order_abc)) = card (dom (xchgs table_abc))"
    and c3: "xchgs (snd (removeAll_xchg table_abc order_abc)) = Map.empty"
    by blast+
  from range_order_abc c1 c2 c3 show ?thesis by blast
qed

section \<open>Properties of the connection pool\<close>

lemma smod_nonneg: "0 \<le> a \<Longrightarrow> 0 < b \<Longrightarrow> (a::int) smod b = a mod b"
  by (cases "a = 0") (simp_all add: signed_modulo_int_def)

lemma Next_step:
  assumes "\<not> mutex r" and "conns r = Some cs" and "cs \<noteq> []"
    and "0 \<le> nextWrite r" and "nextWrite r < int (length cs)"
  shows "Next r = Returns (Some (conn (cs ! nat (nextWrite r))),
           r\<lparr>nextWrite := (nextWrite r + 1) mod int (length cs)\<rparr>)"
proof -
  from assms have m: "(nextWrite r + 1) smod int (length cs) = (nextWrite r + 1) mod int (length cs)"
    by (intro smod_nonneg) auto
  show ?thesis
    using assms by (simp add: Next_def Lock_def Unlock_def Let_def m)
qed

lemma Next_closed:
  assumes "\<not> mutex r" and "conns r = None \<or> conns r = Some []"
  shows "Next r = Returns (None, r)"
  using assms by (auto simp: Next_def Lock_def Unlock_def)

lemma Next_times_run:
  assumes "\<not> mutex r" and "conns r = Some cs" and "cs \<noteq> []"
    and "nextWrite r = int c" and "c < length cs"
  shows "Next_times k r =
     Returns (map (\<lambda>j. Some (conn (cs ! ((c + j) mod length cs)))) [0..<k],
       r\<lparr>nextWrite := int ((c + k) mod length cs)\<rparr>)"
  using assms
proof (induction k arbitrary: r c)
  case 0
  then show ?case by simp
next
  case (Suc k)
  let ?N = "length cs"
  let ?r = "r\<lparr>nextWrite := int (Suc c mod ?N)\<rparr>"
  have "int (Suc c mod ?N) = (nextWrite r + 1) mod int ?N"
    using Suc.prems(4) by (simp add: zmod_int add.commute)
  then have n: "Next r = Returns (Some (conn (cs ! c)), ?r)"
    using Next_step [of r cs] Suc.prems by simp
  have "Next_times k ?r =
     Returns (map (\<lambda>j. Some (conn (cs ! ((Suc c mod ?N + j) mod ?N)))) [0..<k],
       ?r\<lparr>nextWrite := int ((Suc c mod ?N + k) mod ?N)\<rparr>)"
    using Suc.prems by (intro Suc.IH) auto
  moreover have "\<And>j. (Suc c mod ?N + j) mod ?N = (c + Suc j) mod ?N"
    by (simp add: mod_add_left_eq)
  ultimately have t: "Next_times k ?r =
     Returns (map (\<lambda>j. Some (conn (cs ! ((c + Suc j) mod ?N)))) [0..<k],
       r\<lparr>nextWrite := int ((c + Suc k) mod ?N)\<rparr>)"
    by simp
  have "Next_times (Suc k) r =
     and_then (Next_times k ?r) (\<lambda>(xs, r''). Returns (Some (conn (cs ! c)) # xs, r''))"
    by (simp add: n)
  also have "\<dots> = Returns (Some (conn (cs ! c)) #
       map (\<lambda>j. Some (conn (cs ! ((c + Suc j) mod ?N)))) [0..<k],
       r\<lparr>nextWrite := int ((c + Suc k) mod ?N)\<rparr>)"
    unfolding t by simp
  finally have s: "Next_times (Suc k) r = Returns (Some (conn (cs ! c)) #
       map (\<lambda>j. Some (conn (cs ! ((c + Suc j) mod ?N)))) [0..<k],
       r\<lparr>nextWrite := int ((c + Suc k) mod ?N)\<rparr>)" .
  have l: "map (\<lambda>j. Some (conn (cs ! ((c + j) mod ?N)))) [0..<Suc k] =
      Some (conn (cs ! c)) # map (\<lambda>j. Some (conn (cs ! ((c + Suc j) mod ?N)))) [0..<k]"
    using Suc.prems(5) by (simp add: upt_conv_Cons map_Suc_upt [symmetric] del: upt_Suc)
  show ?case
    unfolding l s ..
qed


lemma turn_twice:
  assumes "c < length cs"
  shows "map (\<lambda>k. Some (conn (cs ! ((c + k) mod length cs)))) [0..<2 * length cs] =
    map (\<lambda>x. Some (conn x)) (rotate c cs) @ map (\<lambda>x. Some (conn x)) (rotate c cs)"
proof (rule nth_equalityI)
  show "length (map (\<lambda>k. Some (conn (cs ! ((c + k) mod length cs)))) [0..<2 * length cs]) =
    length (map (\<lambda>x. Some (conn x)) (rotate c cs) @ map (\<lambda>x. Some (conn x)) (rotate c cs))"
    by simp
next
  fix k
  assume "k < length (map (\<lambda>k. Some (conn (cs ! ((c + k) mod length cs)))) [0..<2 * length cs])"
  then have k: "k < 2 * length cs" by simp
  show "map (\<lambda>k. Some (conn (cs ! ((c + k) mod length cs)))) [0..<2 * length cs] ! k =
    (map (\<lambda>x. Some (conn x)) (rotate c cs) @ map (\<lambda>x. Some (conn x)) (rotate c cs)) ! k"
  proof (cases "k < length cs")
    case True
    then show ?thesis using k by (simp add: nth_append nth_rotate)
  next
    case False
    then have m: "(c + (k - length cs)) mod length cs = (c + k) mod length cs"
      by (metis add_diff_inverse_nat mod_add_self2 add.assoc add.commute)
    from False k have "k - length cs < length cs" by simp
    then have e: "rotate c cs ! (k - length cs) = cs ! ((c + k) mod length cs)"
      unfolding m [symmetric] by (rule nth_rotate)
    have "(map (\<lambda>x. Some (conn x)) (rotate c cs) @ map (\<lambda>x. Some (conn x)) (rotate c cs)) ! k =
        Some (conn (rotate c cs ! (k - length cs)))"
      using False k by (simp add: nth_append)
    also have "\<dots> = Some (conn (cs ! ((c + k) mod length cs)))"
      by (simp only: e)
    finally show ?thesis using k by simp
  qed
qed

lemma Next_run_from_cursor:
  assumes "\<not> mutex r" and "conns r = Some cs" and "cs \<noteq> []"
    and "0 \<le> nextWrite r" and "nextWrite r < int (length cs)"
  shows "Next r = Returns (Some (conn (cs ! nat (nextWrite r))),
           r\<lparr>nextWrite := (nextWrite r + 1) mod int (length cs)\<rparr>)
       \<and> (\<forall>k. Next_times k r =
            Returns (map (\<lambda>j. Some (conn (cs ! ((nat (nextWrite r) + j) mod length cs)))) [0..<k],
              r\<lparr>nextWrite := (nextWrite r + int k) mod int (length cs)\<rparr>))
       \<and> Next_times (2 * length cs) r =
            Returns (map (\<lambda>c. Some (conn c)) (rotate (nat (nextWrite r)) cs)
                     @ map (\<lambda>c. Some (conn c)) (rotate (nat (nextWrite r)) cs), r)"
proof -
  let ?c = "nat (nextWrite r)"
  from assms have c: "nextWrite r = int ?c" "?c < length cs" by simp_all
  have run: "Next_times k r =
      Returns (map (\<lambda>j. Some (conn (cs ! ((?c + j) mod length cs)))) [0..<k],
        r\<lparr>nextWrite := (nextWrite r + int k) mod int (length cs)\<rparr>)" for k
  proof -
    have "int ((?c + k) mod length cs) = (nextWrite r + int k) mod int (length cs)"
      using c(1) by (simp add: zmod_int)
    then show ?thesis
      using Next_times_run [OF assms(1-3) c, of k] by simp
  qed
  have "(nextWrite r + int (2 * length cs)) mod int (length cs) = nextWrite r"
    using assms(4,5) by simp
  then have "r\<lparr>nextWrite := (nextWrite r + int (2 * length cs)) mod int (length cs)\<rparr> = r"
    by simp
  then have twice: "Next_times (2 * length cs) r =
      Returns (map (\<lambda>j. Some (conn (cs ! ((?c + j) mod length cs)))) [0..<2 * length cs], r)"
    using run [of "2 * length cs"] by simp
  show ?thesis
    using Next_step [OF assms] run twice turn_twice [OF c(2)] by simp
qed

lemma close_all_fresh:
  "distinct (map done_c cs) \<Longrightarrow> \<forall>c \<in> set cs. done_c c \<notin> closed r \<Longrightarrow>
   close_all cs r = Returns (r\<lparr>closed := closed r \<union> done_c ` set cs\<rparr>)"
proof (induction cs arbitrary: r)
  case Nil
  then show ?case by simp
next
  case (Cons c cs)
  let ?r = "r\<lparr>closed := insert (done_c c) (closed r)\<rparr>"
  from Cons.prems have nd: "done_c c \<notin> done_c ` set cs" and d: "distinct (map done_c cs)"
    by simp_all
  have "\<forall>x \<in> set cs. done_c x \<notin> closed ?r"
  proof
    fix x
    assume x: "x \<in> set cs"
    with nd have "done_c x \<noteq> done_c c" by (metis imageI)
    with x Cons.prems(2) show "done_c x \<notin> closed ?r" by simp
  qed
  with d have "close_all cs ?r = Returns (?r\<lparr>closed := closed ?r \<union> done_c ` set cs\<rparr>)"
    by (rule Cons.IH)
  moreover have "close_chan (done_c c) r = Returns ?r"
    using Cons.prems by (simp add: close_chan_def)
  ultimately show ?case by simp
qed

lemma Close_open:
  assumes "\<not> mutex r" and "conns r = Some cs" and "done_p r \<notin> closed r"
    and "distinct (map done_c cs)"
    and "\<forall>c \<in> set cs. done_c c \<noteq> done_p r \<and> done_c c \<notin> closed r"
  shows "Close r =
    Returns (r\<lparr>conns := None, closed := insert (done_p r) (closed r) \<union> done_c ` set cs\<rparr>)"
proof -
  let ?r1 = "r\<lparr>mutex := True\<rparr>"
  let ?r2 = "?r1\<lparr>closed := insert (done_p r) (closed r)\<rparr>"
  have a: "close_chan (done_p ?r1) ?r1 = Returns ?r2"
    using assms(3) by (simp add: close_chan_def)
  have "\<forall>c \<in> set cs. done_c c \<notin> closed ?r2"
    using assms(5) by simp
  with assms(4) have b: "close_all cs ?r2 = Returns (?r2\<lparr>closed := closed ?r2 \<union> done_c ` set cs\<rparr>)"
    by (rule close_all_fresh)
  have "Close r = and_then (close_chan (done_p ?r1) ?r1) (\<lambda>r2.
      and_then (close_all cs r2) (\<lambda>r3. Returns (Unlock (r3\<lparr>conns := None\<rparr>))))"
    using assms(1,2) by (simp add: Close_def Lock_def)
  also have "\<dots> = Returns (Unlock (?r2\<lparr>closed := closed ?r2 \<union> done_c ` set cs, conns := None\<rparr>))"
    unfolding a by (simp add: b)
  also have "Unlock (?r2\<lparr>closed := closed ?r2 \<union> done_c ` set cs, conns := None\<rparr>) =
      r\<lparr>conns := None, closed := insert (done_p r) (closed r) \<union> done_c ` set cs\<rparr>"
    using assms(1) by (simp add: Unlock_def)
  finally show ?thesis .
qed

lemma Close_closed: "\<not> mutex r \<Longrightarrow> conns r = None \<Longrightarrow> Close r = Returns r"
  by (simp add: Close_def Lock_def Unlock_def)

lemma Close_held: "mutex r \<Longrightarrow> Close r = Blocks"
  by (simp add: Close_def Lock_def)

lemma Next_times_closed:
  "\<not> mutex r \<Longrightarrow> conns r = None \<Longrightarrow> Next_times k r = Returns (replicate k None, r)"
  by (induction k) (simp_all add: Next_closed)

lemma WriteMsg_closed:
  "\<not> mutex r \<Longrightarrow> conns r = None \<Longrightarrow>
   WriteMsg r packed writeTo =
     Returns (Some (case packed of Inl err \<Rightarrow> err | Inr out \<Rightarrow> NoConnection), r)"
  by (simp add: WriteMsg_def Next_closed split: sum.splits)

text \<open>
  What \<open>Close\<close> leaves, as long as no rotation runs after it. \<open>Close\<close> on an open pool
  returns, having closed the channel of the pool and the channel of every connection and set
  the slice to nil. On the pool it leaves, \<open>Next\<close> returns nil, any run of calls of \<open>Next\<close>
  returns nil every time, \<open>WriteMsg\<close> returns an error (the one of \<open>Pack\<close>, or "failed to
  obtain a connection"), and a second \<open>Close\<close> returns without any change; none of these
  calls changes the pool.
\<close>
theorem after_Close:
  assumes "pool_inv r" and "conns r = Some cs"
  shows "\<exists>r'. Close r = Returns r'
       \<and> r' = r\<lparr>conns := None, closed := insert (done_p r) (closed r) \<union> done_c ` set cs\<rparr>
       \<and> Next r' = Returns (None, r')
       \<and> (\<forall>k. Next_times k r' = Returns (replicate k None, r'))
       \<and> (\<forall>packed writeTo. \<exists>err. WriteMsg r' packed writeTo = Returns (Some err, r'))
       \<and> (\<forall>out writeTo. WriteMsg r' (Inr out) writeTo = Returns (Some NoConnection, r'))
       \<and> Close r' = Returns r'"
proof -
  let ?r = "r\<lparr>conns := None, closed := insert (done_p r) (closed r) \<union> done_c ` set cs\<rparr>"
  from assms have m: "\<not> mutex r" and p: "done_p r \<notin> closed r"
    and d: "distinct (map done_c cs)"
    and f: "\<forall>c \<in> set cs. done_c c \<noteq> done_p r \<and> done_c c \<notin> closed r"
    by (auto simp: pool_inv_def)
  have c: "Close r = Returns ?r"
    using m assms(2) p d f by (rule Close_open)
  have m': "\<not> mutex ?r" and n': "conns ?r = None"
    using m by simp_all
  have "Next ?r = Returns (None, ?r)"
    using m' n' by (intro Next_closed) auto
  moreover have "\<forall>k. Next_times k ?r = Returns (replicate k None, ?r)"
    using Next_times_closed [OF m' n'] by blast
  moreover have "\<forall>packed writeTo. \<exists>err. WriteMsg ?r packed writeTo = Returns (Some err, ?r)"
    using WriteMsg_closed [OF m' n'] by blast
  moreover have "\<forall>out writeTo. WriteMsg ?r (Inr out) writeTo = Returns (Some NoConnection, ?r)"
    using WriteMsg_closed [OF m' n'] by simp
  moreover have "Close ?r = Returns ?r"
    using m' n' by (rule Close_closed)
  ultimately show ?thesis
    using c by blast
qed

lemma opened_empty: "n \<le> i \<Longrightarrow> opened listen i n = []"
  by (simp add: opened_def)

lemma opened_step:
  "i < n \<Longrightarrow> opened listen i n =
     (case listen i of Inl err \<Rightarrow> [] | Inr pc \<Rightarrow> [pc]) @ opened listen (i + 1) n"
  by (simp add: opened_def upto_rec1 [of i "n - 1"])

lemma length_concat_openings:
  "length (concat (map (\<lambda>j. case listen j of Inl err \<Rightarrow> [] | Inr pc \<Rightarrow> [pc]) js)) =
     length (filter (\<lambda>j. \<not> isl (listen j)) js)"
  by (induction js) (auto split: sum.splits)

lemma length_opened:
  "length (opened listen i n) = card {j. i \<le> j \<and> j < n \<and> \<not> isl (listen j)}"
proof -
  have "length (opened listen i n) = length (filter (\<lambda>j. \<not> isl (listen j)) [i..n - 1])"
    unfolding opened_def by (rule length_concat_openings)
  also have "\<dots> = card ({j. \<not> isl (listen j)} \<inter> set [i..n - 1])"
    by (simp add: distinct_length_filter)
  also have "{j. \<not> isl (listen j)} \<inter> set [i..n - 1] = {j. i \<le> j \<and> j < n \<and> \<not> isl (listen j)}"
    by auto
  finally show ?thesis .
qed

lemma length_opened_le: "length (opened listen i n) \<le> nat (n - i)"
proof -
  have "{j. i \<le> j \<and> j < n \<and> \<not> isl (listen j)} \<subseteq> {i..<n}" by auto
  then have "card {j. i \<le> j \<and> j < n \<and> \<not> isl (listen j)} \<le> card {i..<n}"
    by (intro card_mono) auto
  then show ?thesis by (simp add: length_opened)
qed

lemma length_opened_all:
  "\<forall>j. i \<le> j \<and> j < n \<longrightarrow> \<not> isl (listen j) \<Longrightarrow> length (opened listen i n) = nat (n - i)"
proof -
  assume "\<forall>j. i \<le> j \<and> j < n \<longrightarrow> \<not> isl (listen j)"
  then have "{j. i \<le> j \<and> j < n \<and> \<not> isl (listen j)} = {i..<n}" by auto
  then show ?thesis by (simp add: length_opened)
qed

lemma length_opened_some_fail:
  assumes "i \<le> k" and "k < n" and "isl (listen k)"
  shows "length (opened listen i n) < nat (n - i)"
proof -
  have "{j. i \<le> j \<and> j < n \<and> \<not> isl (listen j)} \<subseteq> {i..<n}" by auto
  moreover from assms have "k \<in> {i..<n}" and "k \<notin> {j. i \<le> j \<and> j < n \<and> \<not> isl (listen j)}"
    by simp_all
  ultimately have "{j. i \<le> j \<and> j < n \<and> \<not> isl (listen j)} \<subset> {i..<n}" by blast
  then have "card {j. i \<le> j \<and> j < n \<and> \<not> isl (listen j)} < card {i..<n}"
    by (intro psubset_card_mono) auto
  then show ?thesis by (simp add: length_opened)
qed

lemma length_fresh_conns [simp]: "length (fresh_conns m pcs) = length pcs"
  by (induction pcs arbitrary: m) auto

lemma done_c_fresh_conns: "map done_c (fresh_conns m pcs) = [m..<m + length pcs]"
proof (induction pcs arbitrary: m)
  case Nil
  then show ?case by simp
next
  case (Cons pc pcs)
  have "[m..<m + length (pc # pcs)] = m # [Suc m..<Suc m + length pcs]"
    by (subst upt_rec) simp
  then show ?case by (simp only: fresh_conns.simps list.map Cons.IH connection.simps)
qed

lemma conn_fresh_conns: "map conn (fresh_conns m pcs) = pcs"
  by (induction pcs arbitrary: m) auto

lemma Add_ok:
  "Add r (Inr pc) = (None, r\<lparr>conns := Some ((case conns r of None \<Rightarrow> [] | Some cs \<Rightarrow> cs)
      @ [\<lparr>conn = pc, done_c = made r\<rparr>]), made := Suc (made r)\<rparr>)"
  by (simp add: Add_def)

lemma Add_fail: "Add r (Inl err) = (Some err, r)"
  by (simp add: Add_def)

lemma rotate_loop_eq:
  "conns r = Some cs \<Longrightarrow>
   rotate_loop i listen r =
     r\<lparr>conns := Some (cs @ fresh_conns (made r) (opened listen i (cpus r))),
       made := made r + length (opened listen i (cpus r))\<rparr>"
proof (induction i listen r arbitrary: cs rule: rotate_loop.induct)
  case (1 i listen r)
  show ?case
  proof (cases "i < cpus r")
    case False
    then show ?thesis
      using "1.prems" by (simp add: rotate_loop.simps [of i] opened_empty)
  next
    case True
    show ?thesis
    proof (cases "listen i")
      case (Inl err)
      with True "1.IH" [OF True, of cs] "1.prems" show ?thesis
        by (simp add: rotate_loop.simps [of i] Add_fail opened_step)
    next
      case (Inr pc)
      let ?r = "snd (Add r (listen i))"
      have c: "conns ?r = Some (cs @ [\<lparr>conn = pc, done_c = made r\<rparr>])"
        and k: "cpus ?r = cpus r" and m: "made ?r = Suc (made r)"
        using Inr "1.prems" by (simp_all add: Add_ok)
      from True "1.IH" [OF True c] show ?thesis
        using Inr "1.prems" by (simp add: rotate_loop.simps [of i listen r] k m opened_step Add_ok)
    qed
  qed
qed

lemma rotate_conns_eq:
  assumes "\<not> mutex r"
  shows "rotate_conns r listen =
    Returns (r\<lparr>conns := Some (fresh_conns (made r) (opened listen 0 (cpus r))),
      made := made r + length (opened listen 0 (cpus r))\<rparr>)"
proof -
  let ?r1 = "r\<lparr>mutex := True, conns := Some []\<rparr>"
  have "rotate_loop 0 listen ?r1 =
      ?r1\<lparr>conns := Some ([] @ fresh_conns (made ?r1) (opened listen 0 (cpus ?r1))),
        made := made ?r1 + length (opened listen 0 (cpus ?r1))\<rparr>"
    by (rule rotate_loop_eq) simp
  then show ?thesis
    using assms by (simp add: rotate_conns_def Lock_def Unlock_def)
qed

lemma newConnections_loop_eq:
  "mutex r \<Longrightarrow>
   newConnections_loop i n listen r =
     (if \<exists>j. i \<le> j \<and> j < n \<and> isl (listen j) then Blocks
      else Returns (Some (
        if i < n
        then r\<lparr>conns := Some ((case conns r of None \<Rightarrow> [] | Some cs \<Rightarrow> cs)
                 @ fresh_conns (made r) (opened listen i n)),
               made := made r + length (opened listen i n)\<rparr>
        else r)))"
proof (induction i n listen r rule: newConnections_loop.induct)
  case (1 i n listen r)
  show ?case
  proof (cases "i < n")
    case False
    then show ?thesis
      by (simp add: newConnections_loop.simps [of i])
  next
    case True
    show ?thesis
    proof (cases "listen i")
      case (Inl err)
      then have "\<exists>j. i \<le> j \<and> j < n \<and> isl (listen j)"
        using True by (intro exI [of _ i]) simp
      moreover have "newConnections_loop i n listen r = Blocks"
        using True Inl "1.prems"
        by (simp add: newConnections_loop.simps [of i] Add_fail Close_held)
      ultimately show ?thesis by simp
    next
      case (Inr pc)
      let ?r = "r\<lparr>conns := Some ((case conns r of None \<Rightarrow> [] | Some cs \<Rightarrow> cs)
          @ [\<lparr>conn = pc, done_c = made r\<rparr>]), made := Suc (made r)\<rparr>"
      have a: "Add r (listen i) = (None, ?r)"
        using Inr by (simp add: Add_ok)
      have m: "mutex ?r" using "1.prems" by simp
      have step: "newConnections_loop i n listen r = newConnections_loop (i + 1) n listen ?r"
        using True by (simp add: newConnections_loop.simps [of i n listen r] a)
      have ex: "(\<exists>j. i \<le> j \<and> j < n \<and> isl (listen j)) \<longleftrightarrow>
          (\<exists>j. i + 1 \<le> j \<and> j < n \<and> isl (listen j))"
      proof
        assume "\<exists>j. i \<le> j \<and> j < n \<and> isl (listen j)"
        then obtain j where j: "i \<le> j" "j < n" "isl (listen j)" by blast
        with Inr have "j \<noteq> i" by auto
        with j show "\<exists>j. i + 1 \<le> j \<and> j < n \<and> isl (listen j)"
          by (intro exI [of _ j]) simp
      next
        assume "\<exists>j. i + 1 \<le> j \<and> j < n \<and> isl (listen j)"
        then obtain j where "i + 1 \<le> j" "j < n" "isl (listen j)" by blast
        then show "\<exists>j. i \<le> j \<and> j < n \<and> isl (listen j)"
          by (intro exI [of _ j]) simp
      qed
      have o: "opened listen i n = pc # opened listen (i + 1) n"
        using True Inr by (simp add: opened_step)
      have IH: "newConnections_loop (i + 1) n listen ?r =
         (if \<exists>j. i + 1 \<le> j \<and> j < n \<and> isl (listen j) then Blocks
          else Returns (Some (
            if i + 1 < n
            then ?r\<lparr>conns := Some ((case conns ?r of None \<Rightarrow> [] | Some cs \<Rightarrow> cs)
                     @ fresh_conns (made ?r) (opened listen (i + 1) n)),
                   made := made ?r + length (opened listen (i + 1) n)\<rparr>
            else ?r)))"
        using True a m by (intro "1.IH") simp_all
      show ?thesis
      proof (cases "i + 1 < n")
        case True
        then show ?thesis
          unfolding step IH ex [symmetric] o using \<open>i < n\<close> by auto
      next
        case False
        then have "opened listen (i + 1) n = []" by (simp add: opened_empty)
        then show ?thesis
          unfolding step IH ex [symmetric] o using \<open>i < n\<close> False by auto
      qed
    qed
  qed
qed

lemma newConnections_eq:
  "newConnections n q listen =
     (if \<exists>j. 0 \<le> j \<and> j < n \<and> isl (listen j) then Blocks
      else Returns (Some
        \<lparr>mutex = False, done_p = 0,
         conns = (if 0 < n then Some (fresh_conns 1 (opened listen 0 n)) else None),
         resps = q, nextWrite = 0, cpus = n, made = 1 + length (opened listen 0 n),
         closed = {}\<rparr>))"
proof -
  let ?r1 = "\<lparr>mutex = True, done_p = 0, conns = None, resps = q, nextWrite = 0, cpus = n,
          made = 1, closed = {}\<rparr>"
  have l: "newConnections n q listen =
      and_then (newConnections_loop 0 n listen ?r1) (\<lambda>p. Returns (map_option Unlock p))"
    by (simp add: newConnections_def Lock_def)
  have "mutex ?r1" by simp
  note e = newConnections_loop_eq [OF this, of 0 n listen]
  show ?thesis
    unfolding l e by (auto simp: Unlock_def opened_empty)
qed

lemma opened_all_open: "opened all_open 0 2 = [3, 4]"
  by (simp add: opened_def all_open_def upto_rec1 [of 0 1] upto_rec1 [of 1 1])

lemma opened_second_fails: "opened second_fails 0 2 = [7]"
  by (simp add: opened_def second_fails_def upto_rec1 [of 0 1] upto_rec1 [of 1 1])

lemma newConnections_pool2: "newConnections 2 0 all_open = Returns (Some pool2)"
proof -
  have "\<not> (\<exists>j. 0 \<le> j \<and> j < 2 \<and> isl (all_open j))"
    by (simp add: all_open_def)
  then show ?thesis
    unfolding newConnections_eq by (simp add: opened_all_open pool2_def)
qed

lemma rotate_pool2:
  "rotate_conns (pool2\<lparr>nextWrite := c\<rparr>) second_fails = Returns (pool2_short\<lparr>nextWrite := c\<rparr>)"
proof -
  have "\<not> mutex (pool2\<lparr>nextWrite := c\<rparr>)" by (simp add: pool2_def)
  from rotate_conns_eq [OF this, of second_fails] have
    "rotate_conns (pool2\<lparr>nextWrite := c\<rparr>) second_fails =
      Returns (pool2\<lparr>nextWrite := c, conns := Some (fresh_conns 3 [7]), made := 4\<rparr>)"
    by (simp add: pool2_def opened_second_fails)
  then show ?thesis
    by (simp add: pool2_def pool2_short_def)
qed

text \<open>
  C4, as amended. When every one of the \<open>n\<close> socket calls of the constructor succeeds, the
  constructor returns a pool, and a pool that it returns holds \<open>n\<close> sockets. A rotation of
  a pool whose mutex is free returns, leaves the pool open with the same target size, and
  leaves as many sockets as socket calls of the rotation succeeded: the target size when all
  succeed, fewer when one fails. The claim as stated, with the target size also after a
  rotation in which a socket call fails, does not hold.
\<close>
theorem pool_size_after_build_and_rotate:
  "((\<forall>j. 0 \<le> j \<and> j < n \<longrightarrow> \<not> isl (listen j)) \<longrightarrow>
      (\<exists>r. newConnections n q listen = Returns (Some r) \<and> len_conns r = nat n \<and> cpus r = n))
   \<and> (\<forall>r. newConnections n q listen = Returns (Some r) \<longrightarrow> len_conns r = nat n \<and> cpus r = n)
   \<and> (\<not> mutex p \<longrightarrow>
        (\<exists>p'. rotate_conns p listen = Returns p' \<and> conns p' \<noteq> None \<and> cpus p' = cpus p \<and>
           len_conns p' = card {j. 0 \<le> j \<and> j < cpus p \<and> \<not> isl (listen j)} \<and>
           ((\<forall>j. 0 \<le> j \<and> j < cpus p \<longrightarrow> \<not> isl (listen j)) \<longrightarrow> len_conns p' = nat (cpus p)) \<and>
           ((\<exists>j. 0 \<le> j \<and> j < cpus p \<and> isl (listen j)) \<longrightarrow> len_conns p' < nat (cpus p))))"
proof (intro conjI impI allI)
  assume a: "\<forall>j. 0 \<le> j \<and> j < n \<longrightarrow> \<not> isl (listen j)"
  then have "\<not> (\<exists>j. 0 \<le> j \<and> j < n \<and> isl (listen j))" by blast
  moreover have "length (opened listen 0 n) = nat n"
    using length_opened_all [OF a] by simp
  ultimately show "\<exists>r. newConnections n q listen = Returns (Some r) \<and> len_conns r = nat n
      \<and> cpus r = n"
    unfolding newConnections_eq by (simp add: len_conns_def)
next
  fix r
  assume r: "newConnections n q listen = Returns (Some r)"
  then have a: "\<forall>j. 0 \<le> j \<and> j < n \<longrightarrow> \<not> isl (listen j)"
    unfolding newConnections_eq by (auto split: if_splits)
  have l: "length (opened listen 0 n) = nat n"
    using length_opened_all [OF a] by simp
  from a have "\<not> (\<exists>j. 0 \<le> j \<and> j < n \<and> isl (listen j))" by blast
  with r l show "len_conns r = nat n" and "cpus r = n"
    unfolding newConnections_eq by (auto simp: len_conns_def)
next
  assume m: "\<not> mutex p"
  let ?p = "p\<lparr>conns := Some (fresh_conns (made p) (opened listen 0 (cpus p))),
      made := made p + length (opened listen 0 (cpus p))\<rparr>"
  have e: "rotate_conns p listen = Returns ?p"
    using m by (rule rotate_conns_eq)
  have l: "len_conns ?p = length (opened listen 0 (cpus p))"
    by (simp add: len_conns_def)
  have c1: "len_conns ?p = card {j. 0 \<le> j \<and> j < cpus p \<and> \<not> isl (listen j)}"
    unfolding l by (rule length_opened)
  have c2: "(\<forall>j. 0 \<le> j \<and> j < cpus p \<longrightarrow> \<not> isl (listen j)) \<longrightarrow> len_conns ?p = nat (cpus p)"
    unfolding l using length_opened_all [of 0 "cpus p" listen] by simp
  have c3: "(\<exists>j. 0 \<le> j \<and> j < cpus p \<and> isl (listen j)) \<longrightarrow> len_conns ?p < nat (cpus p)"
    unfolding l using length_opened_some_fail [of 0 _ "cpus p" listen] by auto
  show "\<exists>p'. rotate_conns p listen = Returns p' \<and> conns p' \<noteq> None \<and> cpus p' = cpus p \<and>
           len_conns p' = card {j. 0 \<le> j \<and> j < cpus p \<and> \<not> isl (listen j)} \<and>
           ((\<forall>j. 0 \<le> j \<and> j < cpus p \<longrightarrow> \<not> isl (listen j)) \<longrightarrow> len_conns p' = nat (cpus p)) \<and>
           ((\<exists>j. 0 \<le> j \<and> j < cpus p \<and> isl (listen j)) \<longrightarrow> len_conns p' < nat (cpus p))"
    using e c1 c2 c3 by (intro exI [of _ ?p]) simp
qed

text \<open>
  The counterexample to C4 as stated: the pool built for two units is open and holds two
  sockets; a rotation in which the second socket call fails leaves it open with one socket,
  for the target size 2.
\<close>
theorem rotate_shrinks_counterexample:
  "newConnections 2 0 all_open = Returns (Some pool2)
   \<and> conns pool2 \<noteq> None
   \<and> rotate_conns pool2 second_fails = Returns pool2_short
   \<and> conns pool2_short \<noteq> None
   \<and> len_conns pool2_short = 1
   \<and> cpus pool2_short = 2"
proof -
  have "rotate_conns pool2 second_fails = Returns pool2_short"
    using rotate_pool2 [of 0] by (simp add: pool2_def pool2_short_def)
  then show ?thesis
    using newConnections_pool2 by (simp add: pool2_def pool2_short_def len_conns_def)
qed

text \<open>
  C7 does not hold of the code. When a socket call of the constructor fails, the
  constructor calls \<open>Close\<close> while it holds the mutex of the pool; \<open>Close\<close> starts by
  locking that mutex and waits for it without end. The constructor does not return, and the
  channels of the connections made so far are not closed.
\<close>
theorem newConnections_failure_blocks:
  "0 \<le> j \<Longrightarrow> j < n \<Longrightarrow> isl (listen j) \<Longrightarrow> newConnections n q listen = Blocks"
  unfolding newConnections_eq by auto

lemma newConnections_never_nil: "newConnections n q listen \<noteq> Returns None"
  unfolding newConnections_eq by simp

theorem newConnections_failure_blocks_witness:
  "(0::int) \<le> 1 \<and> (1::int) < 2 \<and> isl (second_fails 1)
   \<and> newConnections 2 0 second_fails = Blocks"
proof -
  have h: "isl (second_fails 1)" by (simp add: second_fails_def)
  have "newConnections 2 0 second_fails = Blocks"
    by (rule newConnections_failure_blocks [of 1]) (simp_all add: h)
  with h show ?thesis by simp
qed

text \<open>
  C10 does not hold of the code. The pool built for two units, after one call of \<open>Next\<close>,
  has its cursor at 1. A rotation in which the second socket call fails leaves one socket and
  the cursor at 1, and the next call of \<open>Next\<close> indexes the slice of length 1 at 1: it panics.
\<close>
theorem Next_panics_after_short_rotation:
  "newConnections 2 0 all_open = Returns (Some pool2)
   \<and> Next pool2 = Returns (Some 3, pool2\<lparr>nextWrite := 1\<rparr>)
   \<and> rotate_conns (pool2\<lparr>nextWrite := 1\<rparr>) second_fails = Returns (pool2_short\<lparr>nextWrite := 1\<rparr>)
   \<and> len_conns (pool2_short\<lparr>nextWrite := 1\<rparr>) = 1
   \<and> nextWrite (pool2_short\<lparr>nextWrite := 1\<rparr>) = 1
   \<and> Next (pool2_short\<lparr>nextWrite := 1\<rparr>) = Panics"
proof -
  have n1: "Next pool2 = Returns (Some 3, pool2\<lparr>nextWrite := 1\<rparr>)"
    by (simp add: Next_def Lock_def Unlock_def pool2_def signed_modulo_int_def)
  have n2: "Next (pool2_short\<lparr>nextWrite := 1\<rparr>) = Panics"
    by (simp add: Next_def Lock_def Unlock_def pool2_short_def)
  show ?thesis
    using newConnections_pool2 n1 rotate_pool2 [of 1] n2
    by (simp add: len_conns_def pool2_short_def)
qed

lemma Some_conn_fresh_conns: "map (\<lambda>c. Some (conn c)) (fresh_conns m pcs) = map Some pcs"
  by (induction pcs arbitrary: m) auto

lemma constructed_pool_run:
  assumes "newConnections n q listen = Returns (Some p)" and "0 < n"
  shows "conns p = Some (fresh_conns 1 (opened listen 0 n))
       \<and> len_conns p = nat n
       \<and> nextWrite p = 0
       \<and> Next_times (2 * nat n) p =
           Returns (map Some (opened listen 0 n) @ map Some (opened listen 0 n), p)"
proof -
  let ?ops = "opened listen 0 n"
  let ?cs = "fresh_conns 1 ?ops"
  from assms(1) have a: "\<forall>j. 0 \<le> j \<and> j < n \<longrightarrow> \<not> isl (listen j)"
    unfolding newConnections_eq by (auto split: if_splits)
  then have l: "length ?ops = nat n"
    using length_opened_all [of 0 n listen] by simp
  from a have "\<not> (\<exists>j. 0 \<le> j \<and> j < n \<and> isl (listen j))" by blast
  with assms have p: "p = \<lparr>mutex = False, done_p = 0, conns = Some ?cs, resps = q,
      nextWrite = 0, cpus = n, made = 1 + length ?ops, closed = {}\<rparr>"
    unfolding newConnections_eq by simp
  have lc: "length ?cs = nat n" using l by simp
  have ne: "?cs \<noteq> []"
  proof
    assume "?cs = []"
    then have "length ?cs = 0" by (simp only: list.size)
    with l assms(2) show False by simp
  qed
  have h: "\<not> mutex p" "conns p = Some ?cs" "?cs \<noteq> []" "0 \<le> nextWrite p"
    "nextWrite p < int (length ?cs)"
    using lc ne assms(2) by (simp_all add: p)
  from Next_run_from_cursor [OF h] have
    "Next_times (2 * length ?cs) p =
       Returns (map (\<lambda>c. Some (conn c)) (rotate (nat (nextWrite p)) ?cs)
                @ map (\<lambda>c. Some (conn c)) (rotate (nat (nextWrite p)) ?cs), p)"
    by blast
  moreover have "nextWrite p = 0" by (simp add: p)
  moreover have "map (\<lambda>c. Some (conn c)) ?cs = map Some ?ops"
    by (rule Some_conn_fresh_conns)
  ultimately have "Next_times (2 * nat n) p = Returns (map Some ?ops @ map Some ?ops, p)"
    using l by simp
  with h(2) l show ?thesis
    by (simp add: len_conns_def p)
qed

text \<open>
  The round robin of \<open>Next\<close>, for a cursor that is an index of the slice. Let the pool hold
  the sockets \<open>cs\<close>, at least one, with the cursor at an index of \<open>cs\<close> and the mutex free.
  Then \<open>Next\<close> returns the socket at the cursor and advances the cursor by one modulo the
  length; the \<open>j\<close>-th call of a run returns the socket at index (cursor + \<open>j\<close>) modulo the
  length; and a run of twice as many calls as there are sockets returns the sequence of
  sockets, rotated to start at the cursor, two times in a row, so every socket twice, and
  leaves the pool as it was. A pool that the constructor returns for \<open>n\<close> units, \<open>n\<close>
  positive, holds the \<open>n\<close> sockets opened, with the cursor at 0, and a run of 2\<open>n\<close> calls
  returns these sockets in the order of their opening, two times in a row.
\<close>
theorem Next_round_robin:
  "(\<not> mutex r \<and> conns r = Some cs \<and> cs \<noteq> [] \<and> 0 \<le> nextWrite r
      \<and> nextWrite r < int (length cs) \<longrightarrow>
      Next r = Returns (Some (conn (cs ! nat (nextWrite r))),
         r\<lparr>nextWrite := (nextWrite r + 1) mod int (length cs)\<rparr>)
    \<and> (\<forall>k. Next_times k r =
          Returns (map (\<lambda>j. Some (conn (cs ! ((nat (nextWrite r) + j) mod length cs)))) [0..<k],
            r\<lparr>nextWrite := (nextWrite r + int k) mod int (length cs)\<rparr>))
    \<and> Next_times (2 * length cs) r =
          Returns (map (\<lambda>c. Some (conn c)) (rotate (nat (nextWrite r)) cs)
                   @ map (\<lambda>c. Some (conn c)) (rotate (nat (nextWrite r)) cs), r))
   \<and> (newConnections n q listen = Returns (Some p) \<and> 0 < n \<longrightarrow>
        len_conns p = nat n \<and> nextWrite p = 0
      \<and> Next_times (2 * nat n) p =
          Returns (map Some (opened listen 0 n) @ map Some (opened listen 0 n), p))"
proof (intro conjI impI)
  assume a: "\<not> mutex r \<and> conns r = Some cs \<and> cs \<noteq> [] \<and> 0 \<le> nextWrite r
      \<and> nextWrite r < int (length cs)"
  then have h: "\<not> mutex r" "conns r = Some cs" "cs \<noteq> []" "0 \<le> nextWrite r"
    "nextWrite r < int (length cs)"
    by simp_all
  note T = Next_run_from_cursor [OF h]
  from T show "Next r = Returns (Some (conn (cs ! nat (nextWrite r))),
         r\<lparr>nextWrite := (nextWrite r + 1) mod int (length cs)\<rparr>)"
    by (rule conjunct1)
  from T show "\<forall>k. Next_times k r =
          Returns (map (\<lambda>j. Some (conn (cs ! ((nat (nextWrite r) + j) mod length cs)))) [0..<k],
            r\<lparr>nextWrite := (nextWrite r + int k) mod int (length cs)\<rparr>)"
    by blast
  from T show "Next_times (2 * length cs) r =
          Returns (map (\<lambda>c. Some (conn c)) (rotate (nat (nextWrite r)) cs)
                   @ map (\<lambda>c. Some (conn c)) (rotate (nat (nextWrite r)) cs), r)"
    by blast
next
  assume b: "newConnections n q listen = Returns (Some p) \<and> 0 < n"
  then have "newConnections n q listen = Returns (Some p)" and "0 < n" by simp_all
  note T = constructed_pool_run [OF this]
  from T show "len_conns p = nat n" by blast
  from T show "nextWrite p = 0" by blast
  from T show "Next_times (2 * nat n) p =
      Returns (map Some (opened listen 0 n) @ map Some (opened listen 0 n), p)"
    by blast
qed

theorem pool_size_after_build_and_rotate_witness:
  "\<not> isl (all_open 0) \<and> \<not> isl (all_open 1)
   \<and> newConnections 2 0 all_open = Returns (Some pool2)
   \<and> len_conns pool2 = nat 2
   \<and> \<not> mutex pool2
   \<and> isl (second_fails 1)
   \<and> rotate_conns pool2 second_fails = Returns pool2_short
   \<and> len_conns pool2_short = card {j. 0 \<le> j \<and> j < cpus pool2 \<and> \<not> isl (second_fails j)}
   \<and> len_conns pool2_short < nat (cpus pool2)"
proof -
  have h2: "\<not> mutex pool2" by (simp add: pool2_def)
  have h3: "isl (second_fails 1)" by (simp add: second_fails_def)
  have r: "rotate_conns pool2 second_fails = Returns pool2_short"
    using rotate_pool2 [of 0] by (simp add: pool2_def pool2_short_def)
  note T1 = pool_size_after_build_and_rotate [of 2 all_open 0 pool2]
  note T2 = pool_size_after_build_and_rotate [of 2 second_fails 0 pool2]
  from T1 newConnections_pool2 have c1: "len_conns pool2 = nat 2"
    by blast
  from T2 h2 r have c2:
    "len_conns pool2_short = card {j. 0 \<le> j \<and> j < cpus pool2 \<and> \<not> isl (second_fails j)}"
    and c3: "(\<exists>j. 0 \<le> j \<and> j < cpus pool2 \<and> isl (second_fails j)) \<longrightarrow>
      len_conns pool2_short < nat (cpus pool2)"
    by auto
  have "\<exists>j. 0 \<le> j \<and> j < cpus pool2 \<and> isl (second_fails j)"
    using h3 by (intro exI [of _ 1]) (simp add: pool2_def)
  with c3 have c4: "len_conns pool2_short < nat (cpus pool2)" by blast
  have h0: "\<not> isl (all_open 0)" "\<not> isl (all_open 1)"
    by (simp_all add: all_open_def)
  from h0 newConnections_pool2 c1 h2 h3 r c2 c4 show ?thesis by blast
qed

theorem Next_round_robin_witness:
  "\<not> mutex pool3
   \<and> conns pool3 = Some [\<lparr>conn = 3, done_c = 1\<rparr>, \<lparr>conn = 4, done_c = 2\<rparr>, \<lparr>conn = 5, done_c = 3\<rparr>]
   \<and> 0 \<le> nextWrite pool3 \<and> nextWrite pool3 < 3
   \<and> Next pool3 = Returns (Some 4, pool3\<lparr>nextWrite := 2\<rparr>)
   \<and> Next_times 6 pool3 =
       Returns ([Some 4, Some 5, Some 3, Some 4, Some 5, Some 3], pool3)
   \<and> newConnections 2 0 all_open = Returns (Some pool2)
   \<and> Next_times 4 pool2 = Returns ([Some 3, Some 4, Some 3, Some 4], pool2)"
proof -
  let ?cs = "[\<lparr>conn = 3, done_c = 1\<rparr>, \<lparr>conn = 4, done_c = 2\<rparr>, \<lparr>conn = 5, done_c = 3::nat\<rparr>]"
  have h1: "\<not> mutex pool3" and h2: "conns pool3 = Some ?cs" and h3: "?cs \<noteq> []"
    and h4: "0 \<le> nextWrite pool3" and h5: "nextWrite pool3 < int (length ?cs)"
    by (simp_all add: pool3_def)
  note T = Next_round_robin [of pool3 ?cs 2 0 all_open pool2]
  have n: "nextWrite pool3 = 1" by (simp add: pool3_def)
  have rot: "rotate (nat 1) ?cs = [\<lparr>conn = 4, done_c = 2\<rparr>, \<lparr>conn = 5, done_c = 3\<rparr>, \<lparr>conn = 3, done_c = 1\<rparr>]"
    by (simp add: rotate_def)
  from T h1 h2 h3 h4 h5 have "Next pool3 = Returns (Some (conn (?cs ! nat (nextWrite pool3))),
      pool3\<lparr>nextWrite := (nextWrite pool3 + 1) mod int (length ?cs)\<rparr>)"
    by blast
  then have c1: "Next pool3 = Returns (Some 4, pool3\<lparr>nextWrite := 2\<rparr>)"
    by (simp add: n)
  from T h1 h2 h3 h4 h5 have "Next_times (2 * length ?cs) pool3 =
      Returns (map (\<lambda>c. Some (conn c)) (rotate (nat (nextWrite pool3)) ?cs)
               @ map (\<lambda>c. Some (conn c)) (rotate (nat (nextWrite pool3)) ?cs), pool3)"
    by blast
  then have c2: "Next_times 6 pool3 =
      Returns ([Some 4, Some 5, Some 3, Some 4, Some 5, Some 3], pool3)"
    unfolding n rot by simp
  from T newConnections_pool2 have "Next_times (2 * nat 2) pool2 =
      Returns (map Some (opened all_open 0 2) @ map Some (opened all_open 0 2), pool2)"
    by simp
  then have c3: "Next_times 4 pool2 = Returns ([Some 3, Some 4, Some 3, Some 4], pool2)"
    by (simp add: opened_all_open)
  from h1 h2 h4 h5 c1 c2 newConnections_pool2 c3 show ?thesis by simp
qed

lemma pool_inv_pool2: "pool_inv pool2"
  by (simp add: pool_inv_def pool2_def)

theorem after_Close_witness:
  "pool_inv pool2
   \<and> conns pool2 = Some [\<lparr>conn = 3, done_c = 1\<rparr>, \<lparr>conn = 4, done_c = 2\<rparr>]
   \<and> Close pool2 = Returns (pool2\<lparr>conns := None, closed := {0, 1, 2}\<rparr>)
   \<and> Next (pool2\<lparr>conns := None, closed := {0, 1, 2}\<rparr>) =
       Returns (None, pool2\<lparr>conns := None, closed := {0, 1, 2}\<rparr>)
   \<and> WriteMsg (pool2\<lparr>conns := None, closed := {0, 1, 2}\<rparr>) (Inr [1, 2, 3]) (\<lambda>c out. (3, None)) =
       Returns (Some NoConnection, pool2\<lparr>conns := None, closed := {0, 1, 2}\<rparr>)
   \<and> Close (pool2\<lparr>conns := None, closed := {0, 1, 2}\<rparr>) =
       Returns (pool2\<lparr>conns := None, closed := {0, 1, 2}\<rparr>)"
proof -
  let ?cs = "[\<lparr>conn = 3, done_c = 1\<rparr>, \<lparr>conn = 4, done_c = 2::nat\<rparr>]"
  have h: "conns pool2 = Some ?cs" by (simp add: pool2_def)
  have e: "pool2\<lparr>conns := None, closed := insert (done_p pool2) (closed pool2) \<union> done_c ` set ?cs\<rparr>
      = pool2\<lparr>conns := None, closed := {0, 1, 2}\<rparr>"
    by (auto simp: pool2_def)
  from after_Close [OF pool_inv_pool2 h] show ?thesis
    unfolding e using pool_inv_pool2 h by blast
qed

lemma done_c_fresh_range:
  assumes "c \<in> set (fresh_conns m pcs)"
  shows "m \<le> done_c c \<and> done_c c < m + length pcs"
proof -
  from assms have "done_c c \<in> set (map done_c (fresh_conns m pcs))" by simp
  then show ?thesis unfolding done_c_fresh_conns by simp
qed

lemma distinct_done_c_fresh: "distinct (map done_c (fresh_conns m pcs))"
  unfolding done_c_fresh_conns by simp

lemma newConnections_pool_inv:
  assumes "newConnections n q listen = Returns (Some r)"
  shows "pool_inv r"
proof -
  let ?ops = "opened listen 0 n"
  from assms have r: "r = \<lparr>mutex = False, done_p = 0,
         conns = (if 0 < n then Some (fresh_conns 1 ?ops) else None),
         resps = q, nextWrite = 0, cpus = n, made = 1 + length ?ops, closed = {}\<rparr>"
    unfolding newConnections_eq by (simp split: if_splits)
  have "\<forall>c \<in> set (fresh_conns 1 ?ops). done_c c < 1 + length ?ops \<and> done_c c \<noteq> 0"
  proof
    fix x
    assume "x \<in> set (fresh_conns 1 ?ops)"
    then have "1 \<le> done_c x \<and> done_c x < 1 + length ?ops"
      by (rule done_c_fresh_range)
    then show "done_c x < 1 + length ?ops \<and> done_c x \<noteq> 0" by simp
  qed
  then show ?thesis
    unfolding r by (simp add: pool_inv_def distinct_done_c_fresh)
qed

lemma rotate_conns_pool_inv:
  assumes "pool_inv r" and "conns r = Some cs" and "rotate_conns r listen = Returns r'"
  shows "pool_inv r' \<and> conns r' \<noteq> None"
proof -
  let ?ops = "opened listen 0 (cpus r)"
  from assms(1) have m: "\<not> mutex r" by (simp add: pool_inv_def)
  from assms(3) have r': "r' = r\<lparr>conns := Some (fresh_conns (made r) ?ops),
      made := made r + length ?ops\<rparr>"
    unfolding rotate_conns_eq [OF m] by simp
  from assms(1,2) have p: "done_p r < made r" and c: "\<forall>c \<in> closed r. c < made r"
    and n: "0 \<le> nextWrite r" and o: "done_p r \<notin> closed r"
    by (simp_all add: pool_inv_def)
  have f: "\<forall>c \<in> set (fresh_conns (made r) ?ops).
      done_c c < made r + length ?ops \<and> done_c c \<noteq> done_p r \<and> done_c c \<notin> closed r"
  proof
    fix x
    assume "x \<in> set (fresh_conns (made r) ?ops)"
    then have "made r \<le> done_c x \<and> done_c x < made r + length ?ops"
      by (rule done_c_fresh_range)
    with p c show "done_c x < made r + length ?ops \<and> done_c x \<noteq> done_p r \<and> done_c x \<notin> closed r"
      by auto
  qed
  have "\<forall>c \<in> closed r. c < made r + length ?ops"
    using c by auto
  with m p n o f show ?thesis
    unfolding r' by (simp add: pool_inv_def distinct_done_c_fresh)
qed

lemma smod_nonneg_result: "0 \<le> a \<Longrightarrow> 0 \<le> (a::int) smod b"
  by (cases "b = 0") (simp_all add: signed_modulo_int_def sgn_if)

lemma Next_pool_inv:
  assumes "pool_inv r" and "Next r = Returns (c, r')"
  shows "pool_inv r' \<and> conns r' = conns r"
proof (cases "conns r")
  case None
  with assms show ?thesis
    by (auto simp: Next_def Lock_def Unlock_def pool_inv_def)
next
  case (Some cs)
  from assms(1) Some have n: "0 \<le> nextWrite r" by (simp add: pool_inv_def)
  then have "0 \<le> (nextWrite r + 1) smod int (length cs)"
    by (intro smod_nonneg_result) simp
  with assms Some show ?thesis
    by (auto simp: Next_def Lock_def Unlock_def pool_inv_def Let_def split: if_splits)
qed

lemma Close_pool_inv:
  assumes "pool_inv r"
  shows "\<exists>r'. Close r = Returns r' \<and> pool_inv r' \<and> conns r' = None"
proof (cases "conns r")
  case None
  with assms show ?thesis
    by (simp add: Close_closed pool_inv_def)
next
  case (Some cs)
  let ?r = "r\<lparr>conns := None, closed := insert (done_p r) (closed r) \<union> done_c ` set cs\<rparr>"
  from assms Some have "Close r = Returns ?r"
    by (intro Close_open) (auto simp: pool_inv_def)
  moreover from assms Some have "pool_inv ?r"
    by (auto simp: pool_inv_def)
  ultimately show ?thesis by simp
qed

lemma Next_keeps_cursor:
  assumes "\<not> mutex r" and "conns r = Some cs" and "cs \<noteq> []"
    and "0 \<le> nextWrite r" and "nextWrite r < int (length cs)"
  shows "\<exists>c r'. Next r = Returns (c, r') \<and> conns r' = Some cs
    \<and> 0 \<le> nextWrite r' \<and> nextWrite r' < int (length cs)"
  using Next_step [OF assms] assms(2,3) by simp

lemma rotate_conns_all_opened_keeps_cursor:
  assumes "\<not> mutex r" and "\<forall>j. 0 \<le> j \<and> j < cpus r \<longrightarrow> \<not> isl (listen j)"
    and "nextWrite r < cpus r"
  shows "\<exists>r'. rotate_conns r listen = Returns r' \<and> nextWrite r' < int (len_conns r')"
proof -
  have "length (opened listen 0 (cpus r)) = nat (cpus r)"
    using length_opened_all [OF assms(2)] by simp
  with assms(3) show ?thesis
    unfolding rotate_conns_eq [OF assms(1)] by (simp add: len_conns_def)
qed

lemma Close_pool2: "Close pool2 = Returns pool2_closed"
proof -
  have "Close pool2 = Returns (pool2\<lparr>conns := None,
      closed := insert (done_p pool2) (closed pool2)
        \<union> done_c ` set [\<lparr>conn = 3, done_c = 1\<rparr>, \<lparr>conn = 4, done_c = 2\<rparr>]\<rparr>)"
    by (rule Close_open) (simp_all add: pool2_def)
  also have "pool2\<lparr>conns := None,
      closed := insert (done_p pool2) (closed pool2)
        \<union> done_c ` set [\<lparr>conn = 3, done_c = 1\<rparr>, \<lparr>conn = 4, done_c = 2\<rparr>]\<rparr> = pool2_closed"
    by (auto simp: pool2_def pool2_closed_def)
  finally show ?thesis .
qed

lemma rotate_pool2_closed: "rotate_conns pool2_closed all_open = Returns pool2_reopened"
proof -
  have "\<not> mutex pool2_closed" by (simp add: pool2_closed_def)
  from rotate_conns_eq [OF this, of all_open] have
    "rotate_conns pool2_closed all_open =
      Returns (pool2_closed\<lparr>conns := Some (fresh_conns 3 [3, 4]), made := 5\<rparr>)"
    by (simp add: pool2_closed_def opened_all_open)
  then show ?thesis
    by (simp add: pool2_closed_def pool2_reopened_def)
qed

text \<open>
  C5 does not hold of the code, by the defect of C10. After one call of \<open>Next\<close> and a
  rotation in which the second socket call fails, the pool built for two units holds a
  sequence of one socket, with the mutex free and the cursor at 1. A run of two calls of
  \<open>Next\<close> on this pool is to return its one socket twice; the first call panics.
\<close>
theorem Next_run_panics_after_short_rotation:
  "newConnections 2 0 all_open = Returns (Some pool2)
   \<and> Next pool2 = Returns (Some 3, pool2\<lparr>nextWrite := 1\<rparr>)
   \<and> rotate_conns (pool2\<lparr>nextWrite := 1\<rparr>) second_fails = Returns (pool2_short\<lparr>nextWrite := 1\<rparr>)
   \<and> \<not> mutex (pool2_short\<lparr>nextWrite := 1\<rparr>)
   \<and> conns (pool2_short\<lparr>nextWrite := 1\<rparr>) = Some [\<lparr>conn = 7, done_c = 3\<rparr>]
   \<and> Next_times (2 * 1) (pool2_short\<lparr>nextWrite := 1\<rparr>) = Panics"
proof -
  have n1: "Next pool2 = Returns (Some 3, pool2\<lparr>nextWrite := 1\<rparr>)"
    by (simp add: Next_def Lock_def Unlock_def pool2_def signed_modulo_int_def)
  have n2: "Next (pool2_short\<lparr>nextWrite := 1\<rparr>) = Panics"
    by (simp add: Next_def Lock_def Unlock_def pool2_short_def)
  have "Next_times (Suc (Suc 0)) (pool2_short\<lparr>nextWrite := 1\<rparr>) = Panics"
    by (simp add: n2)
  then have n3: "Next_times (2 * 1) (pool2_short\<lparr>nextWrite := 1\<rparr>) = Panics"
    by (simp add: numeral_2_eq_2)
  show ?thesis
    using newConnections_pool2 n1 rotate_pool2 [of 1] n3
    by (simp add: pool2_short_def)
qed

text \<open>
  C6 does not hold of the code. The loop \<open>rotations\<close> calls \<open>rotate\<close> at every tick until
  it sees the channel of the pool closed, and \<open>rotate\<close> does not test whether the pool is
  closed. A call of \<open>rotate\<close> that the loop has made before \<open>Close\<close> returns, and that waits
  for the mutex which \<open>Close\<close> holds, runs after \<open>Close\<close>: it sets the slice, which is nil, to
  the empty slice and adds sockets. After it \<open>Next\<close> returns a socket, \<open>WriteMsg\<close> sends
  the message and returns nil, and a second \<open>Close\<close> closes the channel of the pool a second
  time, which panics.
\<close>
theorem Next_after_Close_and_rotation:
  "newConnections 2 0 all_open = Returns (Some pool2)
   \<and> Close pool2 = Returns pool2_closed
   \<and> conns pool2_closed = None
   \<and> rotate_conns pool2_closed all_open = Returns pool2_reopened
   \<and> Next pool2_reopened = Returns (Some 3, pool2_reopened\<lparr>nextWrite := 1\<rparr>)
   \<and> WriteMsg pool2_reopened (Inr [1, 2, 3]) writes_all =
       Returns (None, pool2_reopened\<lparr>nextWrite := 1\<rparr>)
   \<and> Close pool2_reopened = Panics"
proof -
  have n: "Next pool2_reopened = Returns (Some 3, pool2_reopened\<lparr>nextWrite := 1\<rparr>)"
    by (simp add: Next_def Lock_def Unlock_def pool2_reopened_def signed_modulo_int_def)
  have w: "WriteMsg pool2_reopened (Inr [1, 2, 3]) writes_all =
      Returns (None, pool2_reopened\<lparr>nextWrite := 1\<rparr>)"
    by (simp add: WriteMsg_def n writes_all_def)
  have c: "Close pool2_reopened = Panics"
    by (simp add: Close_def Lock_def close_chan_def pool2_reopened_def)
  have "conns pool2_closed = None" by (simp add: pool2_closed_def)
  with newConnections_pool2 Close_pool2 rotate_pool2_closed n w c show ?thesis
    by simp
qed

end
